theory Spec2Isabelle
  imports Complex_Main "HOL-Library.Word"
begin

section \<open>The reduction engine \<open>reduction::v9\<close> of Reduction/v9.hpp\<close>

text \<open>
  The theory embeds the class template \<open>reduction::v9<T, F>\<close>: its constructor, the pass
  planner \<open>new_size\<close>, the device kernel and the call operator. Values of type
  \<open>std::size_t\<close> are natural numbers (the one product that can wrap, the factor, is reduced
  modulo \<open>2 ^ 64\<close>); the kernel's \<open>uint32_t\<close> and \<open>int32_t\<close> values are 32-bit words.
\<close>

subsection \<open>Device environment and errors\<close>

type_synonym hipError_t = nat

definition hipSuccess :: hipError_t where
  "hipSuccess = 0"

text \<open>The HIP API calls of the class, one constructor per call site; the status check after
  a kernel launch carries the size of the pass it follows.\<close>

datatype hip_call =
    HipMalloc_front
  | HipMalloc_back
  | HipGetDevice
  | HipGetDeviceProperties
  | HipMemcpy_HostToDevice
  | HipEventCreate_start
  | HipEventCreate_end
  | HipEventRecord_start
  | HipKernelLaunchGGL nat
  | HipEventRecord_end
  | HipEventSynchronize
  | HipMemcpy_DeviceToHost
  | HipEventElapsedTime
  | HipEventDestroy_end
  | HipEventDestroy_start

text \<open>The device is a function from call sites to the status the call returns.\<close>

type_synonym device = "hip_call \<Rightarrow> hipError_t"

datatype error =
    Hip_failure hip_call hipError_t
  | Unsupported_value nat
  | Out_of_bounds
  | Division_by_zero
  | Empty_range
  | Terminated

text \<open>
  \<open>Hip_failure\<close> and \<open>Unsupported_value\<close> are failures raised to the caller;
  \<open>Out_of_bounds\<close>, \<open>Division_by_zero\<close> and \<open>Empty_range\<close> stand for behaviour the
  source leaves undefined; \<open>Terminated\<close> is a call of \<open>std::terminate\<close>: the process ends
  and the call does not return to its caller.
\<close>

text \<open>
  Modelled from the spec: \<open>hip::check\<close> and the macro \<open>HIP_CHECK\<close> of hip_utils.hpp are
  not part of the sources. The spec has every device API error propagated to the caller,
  tagged with the operation that failed.
\<close>

definition check :: "hipError_t \<Rightarrow> hip_call \<Rightarrow> error option" where
  "check err name = (if err = hipSuccess then None else Some (Hip_failure name err))"

definition HIP_CHECK :: "device \<Rightarrow> hip_call \<Rightarrow> error option" where
  "HIP_CHECK dev call = check (dev call) call"

text \<open>Consecutive \<open>HIP_CHECK\<close> statements: the first failure leaves the sequence.\<close>

fun HIP_CHECKs :: "device \<Rightarrow> hip_call list \<Rightarrow> error option" where
  "HIP_CHECKs dev [] = None"
| "HIP_CHECKs dev (c # cs) =
     (case HIP_CHECK dev c of Some e \<Rightarrow> Some e | None \<Rightarrow> HIP_CHECKs dev cs)"

subsection \<open>The pass planner\<close>

text \<open>\<open>new_size\<close>, lines 166 to 169. Division by zero is undefined in the source; every
  caller below checks the factor before it calls.\<close>

definition new_size :: "nat \<Rightarrow> nat \<Rightarrow> nat" where
  "new_size factor actual = actual div factor + (if actual mod factor = 0 then 0 else 1)"

subsection \<open>Compile-time loops\<close>

text \<open>
  Modelled from the spec: \<open>tmp::static_for\<close>, \<open>tmp::select\<close>, \<open>tmp::divide\<close> and
  \<open>tmp::divide_ceil\<close> of tmp_utils.hpp are not part of the sources. \<open>static_for<Init, Pred,
  Step>\<close> is read as the loop \<open>for (I = Init; Pred(I); I = Step(I))\<close>; each of its three
  uses in the kernel is the list of values the loop variable takes.
\<close>

definition divide_ceil :: "nat \<Rightarrow> nat \<Rightarrow> nat" where
  "divide_ceil d n = (n + d - 1) div d"

text \<open>\<open>static_for<WarpSize / 2, not_equal<0>, divide<2>>\<close>: the shuffle distances.\<close>

fun shuffle_deltas :: "nat \<Rightarrow> nat list" where
  "shuffle_deltas Delta = (if Delta = 0 then [] else Delta # shuffle_deltas (Delta div 2))"

text \<open>\<open>static_for<WarpCount, not_equal<0>, select<not_equal<1>, divide_ceil<WarpSize>,
  constant<0>>>\<close>: the numbers of active warps. With a warp size below 2 the template
  recursion has no end; the kernel is instantiated for the warp sizes 32 and 64 only.\<close>

function active_warps :: "nat \<Rightarrow> nat \<Rightarrow> nat list" where
  "active_warps WarpSize ActiveWarps =
     (if ActiveWarps = 0 \<or> WarpSize < 2 then []
      else ActiveWarps #
        active_warps WarpSize (if ActiveWarps \<noteq> 1 then divide_ceil WarpSize ActiveWarps else 0))"
  by pat_completeness auto
termination
proof (relation "measure snd")
  show "wf (measure snd)" by simp
next
  fix WarpSize ActiveWarps :: nat
  assume a: "\<not> (ActiveWarps = 0 \<or> WarpSize < 2)"
  show "((WarpSize, if ActiveWarps \<noteq> 1 then divide_ceil WarpSize ActiveWarps else 0),
          (WarpSize, ActiveWarps)) \<in> measure snd"
  proof (cases "ActiveWarps = 1")
    case True
    then show ?thesis by simp
  next
    case False
    with a have "2 \<le> ActiveWarps" and "2 \<le> WarpSize"
      by auto
    then obtain a' W' where e: "ActiveWarps = 2 + a'" "WarpSize = 2 + W'"
      using le_Suc_ex by blast
    have "ActiveWarps + WarpSize - 1 < ActiveWarps * WarpSize"
      unfolding e by simp
    then have "(ActiveWarps + WarpSize - 1) div WarpSize < ActiveWarps"
      by (simp add: less_mult_imp_div_less)
    then show ?thesis using False by (simp add: divide_ceil_def)
  qed
qed

subsection \<open>The device kernel\<close>

text \<open>
  What one element of the array built by \<open>read_global_safe\<close> evaluates: a read of the
  front buffer at a signed index, or the neutral element.
\<close>

datatype access = Deref int | Neutral

text \<open>
  \<open>read_global_safe\<close>, lines 179 to 189. The offset \<open>i\<close> is an \<open>int32_t\<close>, the length
  and the item count are \<open>uint32_t\<close>: both comparisons are unsigned, the subscript
  \<open>i + I\<close> is signed. Modelled from the spec: \<open>hip::static_array\<close> of hip_utils.hpp is
  a fixed-size array, here the list of its elements.
\<close>

definition read_global_safe :: "nat \<Rightarrow> 32 word \<Rightarrow> 32 word \<Rightarrow> access list" where
  "read_global_safe ItemsPerThread front_size i =
     (if i + word_of_nat ItemsPerThread < front_size
      then map (\<lambda>I. Deref (sint i + int I)) [0..<ItemsPerThread]
      else map (\<lambda>I. if i + word_of_nat I < front_size then Deref (sint i + int I) else Neutral)
             [0..<ItemsPerThread])"

text \<open>A read outside the allocation is undefined in the source, an error here.\<close>

definition fetch :: "'a list \<Rightarrow> 'a \<Rightarrow> access \<Rightarrow> error + 'a" where
  "fetch front zero_elem a =
     (case a of
        Neutral \<Rightarrow> Inr zero_elem
      | Deref p \<Rightarrow>
          if 0 \<le> p \<and> p < int (length front) then Inr (front ! nat p) else Inl Out_of_bounds)"

fun collect :: "(error + 'a) list \<Rightarrow> error + 'a list" where
  "collect [] = Inr []"
| "collect (x # xs) =
     (case x of
        Inl e \<Rightarrow> Inl e
      | Inr v \<Rightarrow> (case collect xs of Inl e \<Rightarrow> Inl e | Inr vs \<Rightarrow> Inr (v # vs)))"

text \<open>The global offset of a thread, line 194: unsigned 32-bit arithmetic, stored in an
  \<open>int32_t\<close>.\<close>

definition gid :: "nat \<Rightarrow> nat \<Rightarrow> nat \<Rightarrow> nat \<Rightarrow> 32 word" where
  "gid BlockSize ItemsPerThread bid tid =
     word_of_nat bid * (word_of_nat BlockSize * word_of_nat ItemsPerThread)
       + word_of_nat tid * word_of_nat ItemsPerThread"

text \<open>Lines 197 to 207: a thread reads its items and folds them into \<open>get<0>(arr)\<close>, with
  \<open>I\<close> running from 1 to \<open>ItemsPerThread - 1\<close>.\<close>

definition thread_res ::
  "('a \<Rightarrow> 'a \<Rightarrow> 'a) \<Rightarrow> 'a \<Rightarrow> 'a list \<Rightarrow> 32 word \<Rightarrow> nat \<Rightarrow> 32 word \<Rightarrow> error + 'a" where
  "thread_res op zero_elem front front_size ItemsPerThread i =
     (case collect (map (fetch front zero_elem) (read_global_safe ItemsPerThread front_size i)) of
        Inl e \<Rightarrow> Inl e
      | Inr [] \<Rightarrow> Inl Empty_range
      | Inr (x # xs) \<Rightarrow> Inr (foldl op x xs))"

text \<open>
  \<open>__shfl_down(res, Delta)\<close>: the value of the lane \<open>Delta\<close> places up in the same warp, the
  thread's own value when that lane is beyond the warp. The list \<open>res\<close> holds the value of
  every thread of the block, in thread order; a source lane beyond the block does not arise
  when the warp size divides the block size.
\<close>

definition shfl_down :: "nat \<Rightarrow> 'a list \<Rightarrow> nat \<Rightarrow> nat \<Rightarrow> 'a" where
  "shfl_down WarpSize res tid Delta =
     (if tid mod WarpSize + Delta < WarpSize \<and> tid + Delta < length res
      then res ! (tid + Delta) else res ! tid)"

text \<open>Line 220 for one \<open>Delta\<close>, in lockstep for all threads whose warp is active.\<close>

definition warp_step ::
  "('a \<Rightarrow> 'a \<Rightarrow> 'a) \<Rightarrow> nat \<Rightarrow> nat \<Rightarrow> 'a list \<Rightarrow> nat \<Rightarrow> 'a list" where
  "warp_step op WarpSize ActiveWarps res Delta =
     map (\<lambda>tid. if tid div WarpSize < ActiveWarps
                 then op (res ! tid) (shfl_down WarpSize res tid Delta)
                 else res ! tid)
       [0..<length res]"

definition warp_reduction ::
  "('a \<Rightarrow> 'a \<Rightarrow> 'a) \<Rightarrow> nat \<Rightarrow> nat \<Rightarrow> 'a list \<Rightarrow> 'a list" where
  "warp_reduction op WarpSize ActiveWarps res =
     foldl (warp_step op WarpSize ActiveWarps) res (shuffle_deltas (WarpSize div 2))"

text \<open>Lines 223 and 224: lane 0 of every active warp stores its value in its slot.\<close>

definition write_shared :: "nat \<Rightarrow> nat \<Rightarrow> 'a list \<Rightarrow> 'a list \<Rightarrow> 'a list" where
  "write_shared WarpSize ActiveWarps res shared =
     map (\<lambda>wid. if wid < ActiveWarps \<and> wid * WarpSize < length res
                 then res ! (wid * WarpSize) else shared ! wid)
       [0..<length shared]"

text \<open>\<open>read_shared_safe\<close>, lines 190 and 191.\<close>

definition read_shared_safe :: "nat \<Rightarrow> 'a \<Rightarrow> 'a list \<Rightarrow> nat \<Rightarrow> 'a" where
  "read_shared_safe WarpCount zero_elem shared i =
     (if i < WarpCount then shared ! i else zero_elem)"

text \<open>The body of the outer loop, lines 215 to 229, on the values of all threads and the
  shared array.\<close>

definition warp_round ::
  "('a \<Rightarrow> 'a \<Rightarrow> 'a) \<Rightarrow> 'a \<Rightarrow> nat \<Rightarrow> nat \<Rightarrow> 'a list \<times> 'a list \<Rightarrow> nat \<Rightarrow> 'a list \<times> 'a list" where
  "warp_round op zero_elem WarpSize WarpCount state ActiveWarps =
     (let res = warp_reduction op WarpSize ActiveWarps (fst state);
          shared = write_shared WarpSize ActiveWarps res (snd state)
      in (map (read_shared_safe WarpCount zero_elem shared) [0..<length res], shared))"

text \<open>
  One block of the kernel, lines 175 to 231: the value of every thread at the end. The
  shared array starts with the contents \<open>uninit\<close> of memory never written.
\<close>

definition block_res ::
  "nat \<Rightarrow> nat \<Rightarrow> nat \<Rightarrow> ('a \<Rightarrow> 'a \<Rightarrow> 'a) \<Rightarrow> 'a \<Rightarrow> 'a \<Rightarrow> 'a list \<Rightarrow> 32 word \<Rightarrow> nat
     \<Rightarrow> error + 'a list" where
  "block_res BlockSize WarpSize ItemsPerThread op zero_elem uninit front front_size bid =
     (let WarpCount = BlockSize div WarpSize in
      case collect (map (\<lambda>tid. thread_res op zero_elem front front_size ItemsPerThread
                            (gid BlockSize ItemsPerThread bid tid)) [0..<BlockSize]) of
        Inl e \<Rightarrow> Inl e
      | Inr res \<Rightarrow>
          Inr (fst (foldl (warp_round op zero_elem WarpSize WarpCount)
                  (res, replicate WarpCount uninit) (active_warps WarpSize WarpCount))))"

text \<open>Lines 233 and 234 for the blocks \<open>bids\<close> in turn: thread 0 of a block writes its
  value to the back buffer at the block's index.\<close>

fun kernel_blocks ::
  "nat \<Rightarrow> nat \<Rightarrow> nat \<Rightarrow> ('a \<Rightarrow> 'a \<Rightarrow> 'a) \<Rightarrow> 'a \<Rightarrow> 'a \<Rightarrow> 'a list \<Rightarrow> 32 word \<Rightarrow> nat list
     \<Rightarrow> 'a list \<Rightarrow> error + 'a list" where
  "kernel_blocks BlockSize WarpSize ItemsPerThread op zero_elem uninit front front_size [] back =
     Inr back"
| "kernel_blocks BlockSize WarpSize ItemsPerThread op zero_elem uninit front front_size
     (bid # bids) back =
     (case block_res BlockSize WarpSize ItemsPerThread op zero_elem uninit front front_size bid of
        Inl e \<Rightarrow> Inl e
      | Inr [] \<Rightarrow>
          kernel_blocks BlockSize WarpSize ItemsPerThread op zero_elem uninit front front_size
            bids back
      | Inr (res # _) \<Rightarrow>
          if bid < length back
          then kernel_blocks BlockSize WarpSize ItemsPerThread op zero_elem uninit front
                 front_size bids (back[bid := res])
          else Inl Out_of_bounds)"

text \<open>The kernel on a grid of \<open>grid\<close> blocks; the result is the back buffer afterwards.\<close>

definition kernel ::
  "nat \<Rightarrow> nat \<Rightarrow> nat \<Rightarrow> nat \<Rightarrow> ('a \<Rightarrow> 'a \<Rightarrow> 'a) \<Rightarrow> 'a \<Rightarrow> 'a \<Rightarrow> 'a list \<Rightarrow> 'a list \<Rightarrow> 32 word
     \<Rightarrow> error + 'a list" where
  "kernel BlockSize WarpSize ItemsPerThread grid op zero_elem uninit front back front_size =
     kernel_blocks BlockSize WarpSize ItemsPerThread op zero_elem uninit front front_size
       [0..<grid] back"

subsection \<open>The engine\<close>

text \<open>The two allocations of the constructor; \<open>front\<close> and \<open>back\<close> point to them.\<close>

datatype buffer = Front_allocation | Back_allocation

text \<open>A kernel launch as the device sees it: the front and back arguments and the length
  of the pass.\<close>

type_synonym launch = "buffer \<times> buffer \<times> nat"

text \<open>
  The members of the class, lines 157 to 164, together with the device state a call acts
  on: \<open>mem\<close> is the contents of each allocation (its length is the capacity), \<open>uninit\<close>
  the value that memory never written holds, \<open>launches\<close> the launches so far, oldest first.
\<close>

record 'a v9 =
  kernel_op :: "'a \<Rightarrow> 'a \<Rightarrow> 'a"
  zero_elem :: 'a
  input_sizes :: "nat list"
  block_sizes :: "nat list"
  front :: buffer
  "back" :: buffer
  origi_front :: buffer
  origi_back :: buffer
  warp_size :: nat
  mem :: "buffer \<Rightarrow> 'a list"
  uninit :: 'a
  launches :: "launch list"

text \<open>
  The constructor, lines 57 to 80. \<open>std::min_element\<close> and \<open>std::max_element\<close> of an
  empty span return the end iterator, which must not be dereferenced. The byte counts of
  lines 70 and 71 are products in \<open>std::size_t\<close> and wrap modulo \<open>2 ^ 64\<close>; an allocation
  of \<open>b\<close> bytes holds \<open>b div sizeof(T)\<close> elements. \<open>sizeof_T\<close> is \<open>sizeof(T)\<close>, at least 1.
\<close>

definition v9_ctor ::
  "device \<Rightarrow> nat \<Rightarrow> nat \<Rightarrow> 'a \<Rightarrow> ('a \<Rightarrow> 'a \<Rightarrow> 'a) \<Rightarrow> 'a \<Rightarrow> nat list \<Rightarrow> nat list
     \<Rightarrow> error + 'a v9" where
  "v9_ctor dev devProp_warpSize sizeof_T uninit_in kernel_op_in zero_elem_in input_sizes_in
     block_sizes_in =
     (case block_sizes_in of
        [] \<Rightarrow> Inl Empty_range
      | b # bs \<Rightarrow>
          (case input_sizes_in of
             [] \<Rightarrow> Inl Empty_range
           | n # ns \<Rightarrow>
               let smallest_factor = fold min bs b;
                   largest_size = fold max ns n
               in (case HIP_CHECK dev HipMalloc_front of
                     Some e \<Rightarrow> Inl e
                   | None \<Rightarrow>
                       if smallest_factor = 0 then Inl Division_by_zero
                       else
                         (case HIP_CHECKs dev
                                 [HipMalloc_back, HipGetDevice, HipGetDeviceProperties] of
                            Some e \<Rightarrow> Inl e
                          | None \<Rightarrow>
                              Inr \<lparr>kernel_op = kernel_op_in,
                                   zero_elem = zero_elem_in,
                                   input_sizes = input_sizes_in,
                                   block_sizes = block_sizes_in,
                                   front = Front_allocation,
                                   back = Back_allocation,
                                   origi_front = Front_allocation,
                                   origi_back = Back_allocation,
                                   warp_size = devProp_warpSize,
                                   mem = (\<lambda>_. [])
                                     (Front_allocation :=
                                        replicate
                                          ((sizeof_T * largest_size) mod 2 ^ 64 div sizeof_T)
                                          uninit_in,
                                      Back_allocation :=
                                        replicate
                                          ((new_size smallest_factor largest_size * sizeof_T)
                                             mod 2 ^ 64 div sizeof_T)
                                          uninit_in),
                                   uninit = uninit_in,
                                   launches = []\<rparr>))))"

text \<open>
  Modelled from the spec: \<open>tmp::static_switch\<close> of tmp_utils.hpp is not part of the
  sources. The spec has it call the function at the compile-time constant equal to the
  runtime value, and fail with a configuration error when the value is not in the menu.
  Its callers take no result from it (lines 96 to 120 and 131), so the failure is raised,
  not returned.
\<close>

definition static_switch :: "nat list \<Rightarrow> nat \<Rightarrow> (nat \<Rightarrow> error + 'b) \<Rightarrow> error + 'b" where
  "static_switch menu v f = (if v \<in> set menu then f v else Inl (Unsupported_value v))"

text \<open>
  The callbacks of lines 98, 102 and 106 are \<open>noexcept\<close>: a failure raised inside one of
  them cannot leave it, \<open>std::terminate\<close> is called instead. An access out of bounds
  on the device is no exception of the host, and is passed on.
\<close>

fun noexcept :: "error + 'b \<Rightarrow> error + 'b" where
  "noexcept (Inl (Unsupported_value v)) = Inl Terminated"
| "noexcept (Inl (Hip_failure c e)) = Inl Terminated"
| "noexcept r = r"

text \<open>\<open>hipLaunchKernelGGL\<close>, lines 108 to 117: the grid dimension and the length are
  narrowed to 32 bits, the kernel writes the back buffer.\<close>

definition hipLaunchKernelGGL ::
  "nat \<Rightarrow> nat \<Rightarrow> nat \<Rightarrow> nat \<Rightarrow> 'a v9 \<Rightarrow> nat \<Rightarrow> error + 'a v9" where
  "hipLaunchKernelGGL BlockSize WarpSize ItemsPerThread grid s step_size =
     (case kernel BlockSize WarpSize ItemsPerThread (grid mod 2 ^ 32) (kernel_op s) (zero_elem s)
             (uninit s) (mem s (front s)) (mem s (back s)) (word_of_nat step_size) of
        Inl e \<Rightarrow> Inl e
      | Inr b \<Rightarrow>
          Inr (s\<lparr>mem := (mem s)(back s := b),
                 launches := launches s @ [(front s, back s, step_size)]\<rparr>))"

text \<open>\<open>kernel_dispatcher\<close>, lines 94 to 121. The switch on the block size is called
  outside every callback, so its failure reaches the caller; the switches on the warp size
  and on the items per thread are called inside a \<open>noexcept\<close> callback.\<close>

definition kernel_dispatcher :: "nat \<Rightarrow> nat \<Rightarrow> nat \<Rightarrow> 'a v9 \<Rightarrow> nat \<Rightarrow> error + 'a v9" where
  "kernel_dispatcher block_size items_per_thread factor s step_size =
     static_switch [32, 64, 128, 256, 512, 1024] block_size (\<lambda>BlockSize. noexcept (
       static_switch [32, 64] (warp_size s) (\<lambda>WarpSize. noexcept (
         static_switch [1, 2, 3, 4, 8, 16] items_per_thread (\<lambda>ItemsPerThread. noexcept (
           hipLaunchKernelGGL BlockSize WarpSize ItemsPerThread (new_size factor step_size)
             s step_size))))))"

text \<open>
  The pass loop, lines 128 to 137. The loop need not end (a factor of 1 never shrinks the
  size), so it is a partial function; the result is the error that left the loop, if any,
  and the engine at that point.
\<close>

partial_function (option) pass_loop ::
  "device \<Rightarrow> nat \<Rightarrow> nat \<Rightarrow> nat \<Rightarrow> nat \<Rightarrow> 'a v9 \<Rightarrow> (error option \<times> 'a v9) option" where
  "pass_loop dev block_size items_per_thread factor curr_size s =
     (if curr_size > 1 then
        (case kernel_dispatcher block_size items_per_thread factor s curr_size of
           Inl e \<Rightarrow> Some (Some e, s)
         | Inr s1 \<Rightarrow>
             (case check (dev (HipKernelLaunchGGL curr_size)) (HipKernelLaunchGGL curr_size) of
                Some e \<Rightarrow> Some (Some e, s1)
              | None \<Rightarrow>
                  if factor = 0 then Some (Some Division_by_zero, s1)
                  else pass_loop dev block_size items_per_thread factor (new_size factor curr_size)
                         (if new_size factor curr_size > 1
                          then s1\<lparr>front := back s1, back := front s1\<rparr> else s1)))
      else Some (None, s))"

text \<open>The copy of the input to the front buffer, line 92.\<close>

definition copy_in :: "device \<Rightarrow> 'a v9 \<Rightarrow> 'a list \<Rightarrow> error + 'a v9" where
  "copy_in dev s input =
     (case HIP_CHECK dev HipMemcpy_HostToDevice of
        Some e \<Rightarrow> Inl e
      | None \<Rightarrow>
          if length input \<le> length (mem s (front s))
          then Inr (s\<lparr>mem := (mem s)(front s := input @ drop (length input) (mem s (front s)))\<rparr>)
          else Inl Out_of_bounds)"

text \<open>The copy of the first element of the back buffer to the host, lines 141 and 142.\<close>

definition copy_out :: "device \<Rightarrow> 'a v9 \<Rightarrow> error + 'a" where
  "copy_out dev s =
     (case HIP_CHECK dev HipMemcpy_DeviceToHost of
        Some e \<Rightarrow> Inl e
      | None \<Rightarrow> (case mem s (back s) of [] \<Rightarrow> Inl Out_of_bounds | result # _ \<Rightarrow> Inr result))"

text \<open>
  The call operator, lines 88 to 154: the outcome (an error or the reduced scalar) and the
  engine afterwards. The elapsed time is a measurement of the device and is left out.
\<close>

definition v9_call ::
  "device \<Rightarrow> 'a v9 \<Rightarrow> 'a list \<Rightarrow> nat \<Rightarrow> nat \<Rightarrow> ((error + 'a) \<times> 'a v9) option" where
  "v9_call dev s input block_size items_per_thread =
     (let factor = (block_size * items_per_thread) mod 2 ^ 64 in
      case copy_in dev s input of
        Inl e \<Rightarrow> Some (Inl e, s)
      | Inr s0 \<Rightarrow>
          (case HIP_CHECKs dev [HipEventCreate_start, HipEventCreate_end, HipEventRecord_start] of
             Some e \<Rightarrow> Some (Inl e, s0)
           | None \<Rightarrow>
               (case pass_loop dev block_size items_per_thread factor (length input) s0 of
                  None \<Rightarrow> None
                | Some (Some e, s1) \<Rightarrow> Some (Inl e, s1)
                | Some (None, s1) \<Rightarrow>
                    (case HIP_CHECKs dev [HipEventRecord_end, HipEventSynchronize] of
                       Some e \<Rightarrow> Some (Inl e, s1)
                     | None \<Rightarrow>
                         (case copy_out dev s1 of
                            Inl e \<Rightarrow> Some (Inl e, s1)
                          | Inr result \<Rightarrow>
                              (case HIP_CHECKs dev
                                      [HipEventElapsedTime, HipEventDestroy_end,
                                       HipEventDestroy_start] of
                                 Some e \<Rightarrow> Some (Inl e, s1)
                               | None \<Rightarrow>
                                   Some (Inr result,
                                         s1\<lparr>front := origi_front s1,
                                            back := origi_back s1\<rparr>)))))))"

subsection \<open>The launch sequence of a call\<close>

text \<open>The launches of a call as the loop issues them: one launch while the size exceeds 1,
  the next one on exchanged buffers and the planner's next size.\<close>

fun pass_chain :: "nat \<Rightarrow> buffer \<Rightarrow> buffer \<Rightarrow> nat \<Rightarrow> launch list \<Rightarrow> bool" where
  "pass_chain factor f b n [] = (n \<le> 1)"
| "pass_chain factor f b n (l # ls) =
     (1 < n \<and> l = (f, b, n) \<and> pass_chain factor b f (new_size factor n) ls)"

subsection \<open>Example devices and engines\<close>

text \<open>A device on which every call succeeds, and one on which exactly one call fails.\<close>

definition all_succeed :: device where
  "all_succeed = (\<lambda>_. hipSuccess)"

definition fails_at :: "hip_call \<Rightarrow> device" where
  "fails_at c = (\<lambda>c'. if c' = c then 1 else hipSuccess)"

text \<open>An engine for the sum of integers of four bytes, as the constructor builds it for one
  input size and the block size 32 on a device of the given warp size; memory never written
  holds 99.\<close>

definition example_engine :: "nat \<Rightarrow> nat \<Rightarrow> int v9" where
  "example_engine warp largest = projr (v9_ctor all_succeed warp 4 99 (+) 0 [largest] [32])"

text \<open>An input of 33 elements: two passes with the factor 32.\<close>

definition one_to_33 :: "int list" where
  "one_to_33 = [1, 2, 3, 4, 5, 6, 7, 8, 9, 10, 11, 12, 13, 14, 15, 16, 17, 18, 19, 20, 21, 22,
     23, 24, 25, 26, 27, 28, 29, 30, 31, 32, 33]"

subsection \<open>Notions for the correctness of the reduction\<close>

text \<open>The operator is associative and commutative, with \<open>z\<close> as neutral element.\<close>

definition neutral_ac :: "('a \<Rightarrow> 'a \<Rightarrow> 'a) \<Rightarrow> 'a \<Rightarrow> bool" where
  "neutral_ac op z \<longleftrightarrow>
     (\<forall>a b c. op (op a b) c = op a (op b c)) \<and> (\<forall>a b. op a b = op b a) \<and> (\<forall>a. op a z = a)"

text \<open>The combination of the values \<open>g i\<close> for \<open>i\<close> in a finite set, in any order.\<close>

abbreviation big :: "('a \<Rightarrow> 'a \<Rightarrow> 'a) \<Rightarrow> 'a \<Rightarrow> (nat \<Rightarrow> 'a) \<Rightarrow> nat set \<Rightarrow> 'a" where
  "big op z \<equiv> comm_monoid_set.F op z"

text \<open>The front buffer read at a position, padded with the neutral element from the length
  of the pass on.\<close>

definition padded :: "'a \<Rightarrow> nat \<Rightarrow> 'a list \<Rightarrow> nat \<Rightarrow> 'a" where
  "padded z n buf p = (if p < n then buf ! p else z)"

text \<open>After the shuffle steps down to distance \<open>d\<close>, lane \<open>l < d\<close> of an active warp holds
  the combination of the lanes congruent to \<open>l\<close> modulo \<open>d\<close>.\<close>

definition lanes_combined ::
  "('a \<Rightarrow> 'a \<Rightarrow> 'a) \<Rightarrow> 'a \<Rightarrow> nat \<Rightarrow> nat \<Rightarrow> 'a list \<Rightarrow> 'a list \<Rightarrow> nat \<Rightarrow> bool" where
  "lanes_combined op z W A res0 res d \<longleftrightarrow>
     length res = length res0 \<and>
     (\<forall>w l. w < A \<longrightarrow> l < d \<longrightarrow>
        res ! (w * W + l) = big op z (\<lambda>i. res0 ! (w * W + i)) {i. i < W \<and> i mod d = l})"

section \<open>Properties\<close>

subsection \<open>The pass loop\<close>

lemma new_size_less:
  assumes f: "2 \<le> factor" and n: "1 < n"
  shows "new_size factor n < n"
proof -
  define q r where "q = n div factor" and "r = n mod factor"
  have d: "n = factor * q + r"
    by (simp add: q_def r_def)
  have "2 * q \<le> factor * q" using f by simp
  with d have a: "2 * q + r \<le> n" by linarith
  show ?thesis
  proof (cases "r = 0")
    case True
    then have "new_size factor n = q" by (simp add: new_size_def q_def r_def)
    with a n show ?thesis by linarith
  next
    case False
    then have e: "new_size factor n = q + 1" by (simp add: new_size_def q_def r_def)
    show ?thesis
    proof (cases "q = 0")
      case True
      with e n show ?thesis by simp
    next
      case False
      with a e \<open>r \<noteq> 0\<close> show ?thesis by linarith
    qed
  qed
qed

lemma pass_loop_terminates:
  assumes "2 \<le> factor"
  shows "\<exists>r. pass_loop dev bs ipt factor n s = Some r"
proof (induction n arbitrary: s rule: less_induct)
  case (less n)
  show ?case
  proof (cases "1 < n")
    case False
    then show ?thesis by (subst pass_loop.simps) simp
  next
    case True
    then have dec: "new_size factor n < n"
      using assms by (rule new_size_less[rotated])
    have f0: "factor \<noteq> 0" using assms by simp
    show ?thesis
    proof (cases "kernel_dispatcher bs ipt factor s n")
      case (Inl e)
      then show ?thesis using True by (subst pass_loop.simps) simp
    next
      case (Inr s1)
      show ?thesis
      proof (cases "check (dev (HipKernelLaunchGGL n)) (HipKernelLaunchGGL n)")
        case (Some e)
        then show ?thesis using True Inr by (subst pass_loop.simps) simp
      next
        case None
        from less.IH[OF dec] obtain r where
          "pass_loop dev bs ipt factor (new_size factor n)
             (if 1 < new_size factor n then s1\<lparr>front := back s1, back := front s1\<rparr> else s1)
           = Some r" by blast
        then show ?thesis using True Inr None f0 by (subst pass_loop.simps) simp
      qed
    qed
  qed
qed

lemma hipLaunchKernelGGL_Inr:
  assumes "hipLaunchKernelGGL B W I g s n = Inr s1"
  shows "\<exists>b. s1 = s\<lparr>mem := (mem s)(back s := b),
                      launches := launches s @ [(front s, back s, n)]\<rparr>"
  using assms by (auto simp: hipLaunchKernelGGL_def split: sum.splits)

lemma noexcept_Inr [simp]: "noexcept r = Inr x \<longleftrightarrow> r = Inr x"
proof (cases r)
  case (Inl e)
  then show ?thesis by (cases e) simp_all
next
  case (Inr y)
  then show ?thesis by simp
qed

lemma static_switch_Inr: "static_switch menu v f = Inr x \<Longrightarrow> f v = Inr x"
  by (simp add: static_switch_def split: if_splits)

lemma kernel_dispatcher_Inr:
  assumes "kernel_dispatcher bs ipt factor s n = Inr s1"
  shows "\<exists>b. s1 = s\<lparr>mem := (mem s)(back s := b),
                      launches := launches s @ [(front s, back s, n)]\<rparr>"
proof -
  from assms have "hipLaunchKernelGGL bs (warp_size s) ipt (new_size factor n) s n = Inr s1"
    unfolding kernel_dispatcher_def by (auto dest!: static_switch_Inr)
  then show ?thesis by (rule hipLaunchKernelGGL_Inr)
qed

lemma pass_loop_cases:
  assumes run: "pass_loop dev bs ipt factor n s = Some y"
    and stop: "\<And>n s. \<not> 1 < n \<Longrightarrow> P n s (None, s)"
    and refuse: "\<And>n s e. 1 < n \<Longrightarrow> kernel_dispatcher bs ipt factor s n = Inl e \<Longrightarrow> P n s (Some e, s)"
    and fail: "\<And>n s s1 e. 1 < n \<Longrightarrow> kernel_dispatcher bs ipt factor s n = Inr s1 \<Longrightarrow>
        check (dev (HipKernelLaunchGGL n)) (HipKernelLaunchGGL n) = Some e \<Longrightarrow> P n s (Some e, s1)"
    and zero: "\<And>n s s1. 1 < n \<Longrightarrow> kernel_dispatcher bs ipt factor s n = Inr s1 \<Longrightarrow>
        check (dev (HipKernelLaunchGGL n)) (HipKernelLaunchGGL n) = None \<Longrightarrow> factor = 0 \<Longrightarrow>
        P n s (Some Division_by_zero, s1)"
    and step: "\<And>n s s1 y. 1 < n \<Longrightarrow> kernel_dispatcher bs ipt factor s n = Inr s1 \<Longrightarrow>
        check (dev (HipKernelLaunchGGL n)) (HipKernelLaunchGGL n) = None \<Longrightarrow> factor \<noteq> 0 \<Longrightarrow>
        P (new_size factor n)
          (if 1 < new_size factor n then s1\<lparr>front := back s1, back := front s1\<rparr> else s1) y \<Longrightarrow>
        P n s y"
  shows "P n s y"
  using run
proof (induction dev' \<equiv> dev bs' \<equiv> bs ipt' \<equiv> ipt factor' \<equiv> factor n s y rule: pass_loop.raw_induct[rotated, consumes 1])
  case (1 loop n s y)
  note IH = 1(1) and body = 1(2)
  show ?case
  proof (cases "1 < n")
    case False
    with body stop show ?thesis by auto
  next
    case n: True
    show ?thesis
    proof (cases "kernel_dispatcher bs ipt factor s n")
      case (Inl e)
      with body n refuse show ?thesis by auto
    next
      case (Inr s1)
      show ?thesis
      proof (cases "check (dev (HipKernelLaunchGGL n)) (HipKernelLaunchGGL n)")
        case (Some e)
        with body n Inr fail show ?thesis by auto
      next
        case None
        show ?thesis
        proof (cases "factor = 0")
          case True
          with body n Inr None zero show ?thesis by auto
        next
          case False
          with body n Inr None have
            "loop dev bs ipt factor (new_size factor n)
               (if 1 < new_size factor n then s1\<lparr>front := back s1, back := front s1\<rparr> else s1)
             = Some y" by simp
          then have "P (new_size factor n)
               (if 1 < new_size factor n then s1\<lparr>front := back s1, back := front s1\<rparr> else s1) y"
            by (rule IH)
          with n Inr None False show ?thesis by (rule step)
        qed
      qed
    qed
  qed
qed

lemma pass_loop_fields:
  assumes "pass_loop dev bs ipt factor n s = Some (e, s1)"
  shows "origi_front s1 = origi_front s \<and> origi_back s1 = origi_back s
    \<and> ((front s1 = front s \<and> back s1 = back s) \<or> (front s1 = back s \<and> back s1 = front s))"
proof -
  define P where "P = (\<lambda>(n::nat) (s::'a v9) (y :: error option \<times> 'a v9).
     origi_front (snd y) = origi_front s \<and> origi_back (snd y) = origi_back s
    \<and> ((front (snd y) = front s \<and> back (snd y) = back s)
       \<or> (front (snd y) = back s \<and> back (snd y) = front s)))"
  have "P n s (e, s1)"
  proof (rule pass_loop_cases[OF assms, where P = P])
    show "P n s (None, s)" for n s by (simp add: P_def)
    show "P n s (Some e, s)" for n s e by (simp add: P_def)
    show "P n s (Some e, s1)" if "kernel_dispatcher bs ipt factor s n = Inr s1" for n s s1 e
      using kernel_dispatcher_Inr[OF that] by (auto simp: P_def)
    show "P n s (Some Division_by_zero, s1)" if "kernel_dispatcher bs ipt factor s n = Inr s1" for n s s1
      using kernel_dispatcher_Inr[OF that] by (auto simp: P_def)
    show "P n s y" if "kernel_dispatcher bs ipt factor s n = Inr s1"
      and "P (new_size factor n)
          (if 1 < new_size factor n then s1\<lparr>front := back s1, back := front s1\<rparr> else s1) y"
    for n s s1 y
      using kernel_dispatcher_Inr[OF that(1)] that(2) by (auto simp: P_def split: if_splits)
  qed
  then show ?thesis by (simp add: P_def)
qed

lemma pass_chain_small: "n \<le> 1 \<Longrightarrow> pass_chain factor f b n ls \<longleftrightarrow> ls = []"
  by (cases ls) auto

lemma pass_loop_launches:
  assumes "pass_loop dev bs ipt factor n s = Some (None, s1)"
  shows "\<exists>ls. launches s1 = launches s @ ls
    \<and> pass_chain factor (front s) (back s) n ls
    \<and> back s1 = (if ls = [] then back s else fst (snd (last ls)))"
proof -
  define P where "P = (\<lambda>(n::nat) (s::'a v9) (y :: error option \<times> 'a v9).
     fst y = None \<longrightarrow> (\<exists>ls. launches (snd y) = launches s @ ls
        \<and> pass_chain factor (front s) (back s) n ls
        \<and> back (snd y) = (if ls = [] then back s else fst (snd (last ls)))))"
  have "P n s (None, s1)"
  proof (rule pass_loop_cases[OF assms, where P = P])
    show "P n s (None, s)" if "\<not> 1 < n" for n s
      using that by (simp add: P_def)
    show "P n s (Some e, s)" for n s e by (simp add: P_def)
    show "P n s (Some e, s1)" for n s s1 e by (simp add: P_def)
    show "P n s (Some Division_by_zero, s1)" for n s s1 by (simp add: P_def)
    show "P n s y" if n: "1 < n" and d: "kernel_dispatcher bs ipt factor s n = Inr s1"
      and IH: "P (new_size factor n)
          (if 1 < new_size factor n then s1\<lparr>front := back s1, back := front s1\<rparr> else s1) y"
    for n s s1 y
      unfolding P_def
    proof
      assume y: "fst y = None"
      from kernel_dispatcher_Inr[OF d] obtain b where
        s1: "s1 = s\<lparr>mem := (mem s)(back s := b),
                      launches := launches s @ [(front s, back s, n)]\<rparr>" by blast
      let ?n' = "new_size factor n"
      let ?s2 = "if 1 < ?n' then s1\<lparr>front := back s1, back := front s1\<rparr> else s1"
      from IH[unfolded P_def, rule_format, OF y] obtain ls where
        all: "launches (snd y) = launches ?s2 @ ls
          \<and> pass_chain factor (front ?s2) (back ?s2) ?n' ls
          \<and> back (snd y) = (if ls = [] then back ?s2 else fst (snd (last ls)))" ..
      show "\<exists>ls. launches (snd y) = launches s @ ls
        \<and> pass_chain factor (front s) (back s) n ls
        \<and> back (snd y) = (if ls = [] then back s else fst (snd (last ls)))"
      proof (cases "1 < ?n'")
        case True
        with all have l: "launches (snd y) = launches s @ (front s, back s, n) # ls"
          and c: "pass_chain factor (back s) (front s) ?n' ls"
          and e: "back (snd y) = (if ls = [] then front s else fst (snd (last ls)))"
          by (simp_all add: s1)
        from c True have "ls \<noteq> []" by (cases ls) simp_all
        with l c e n show ?thesis
          by (intro exI[of _ "(front s, back s, n) # ls"]) simp
      next
        case False
        with all have "ls = []" by (simp add: pass_chain_small)
        with False all have l: "launches (snd y) = launches s @ [(front s, back s, n)]"
          and e: "back (snd y) = back s"
          by (simp_all add: s1)
        with False n show ?thesis
          by (intro exI[of _ "[(front s, back s, n)]"]) simp
      qed
    qed
  qed
  then show ?thesis by (simp add: P_def)
qed

lemma copy_in_Inr:
  assumes "copy_in dev s input = Inr s0"
  shows "s0 = s\<lparr>mem := (mem s)(front s := input @ drop (length input) (mem s (front s)))\<rparr>"
  using assms by (auto simp: copy_in_def split: option.splits if_splits)

lemma copy_out_Inr:
  assumes "copy_out dev s = Inr r"
  shows "mem s (back s) \<noteq> [] \<and> r = hd (mem s (back s))"
  using assms by (auto simp: copy_out_def split: option.splits list.splits)

lemma v9_call_Inr:
  assumes "v9_call dev s input bs ipt = Some (Inr r, s')"
  shows "\<exists>s0 s1. copy_in dev s input = Inr s0
    \<and> pass_loop dev bs ipt ((bs * ipt) mod 2 ^ 64) (length input) s0 = Some (None, s1)
    \<and> copy_out dev s1 = Inr r
    \<and> s' = s1\<lparr>front := origi_front s1, back := origi_back s1\<rparr>"
proof (cases "copy_in dev s input")
  case (Inl e)
  with assms show ?thesis by (simp add: v9_call_def)
next
  case (Inr s0)
  show ?thesis
  proof (cases "pass_loop dev bs ipt ((bs * ipt) mod 2 ^ 64) (length input) s0")
    case None
    with assms Inr show ?thesis
      by (simp add: v9_call_def split: option.splits)
  next
    case (Some y)
    obtain e1 s1 where y: "y = (e1, s1)" by (cases y)
    show ?thesis
    proof (cases e1)
      case (Some e)
      with assms Inr \<open>pass_loop dev bs ipt ((bs * ipt) mod 2 ^ 64) (length input) s0 = Some y\<close> y
      show ?thesis by (simp add: v9_call_def split: option.splits)
    next
      case None
      with assms Inr \<open>pass_loop dev bs ipt ((bs * ipt) mod 2 ^ 64) (length input) s0 = Some y\<close> y
      show ?thesis
        by (simp add: v9_call_def split: option.splits sum.splits)
    qed
  qed
qed

lemma v9_call_Inl:
  assumes "v9_call dev s input bs ipt = Some (Inl e, s')"
  shows "s' = s \<or> (\<exists>s0. copy_in dev s input = Inr s0 \<and> (s' = s0 \<or>
     (\<exists>e1. pass_loop dev bs ipt ((bs * ipt) mod 2 ^ 64) (length input) s0 = Some (e1, s'))))"
proof (cases "copy_in dev s input")
  case (Inl e)
  with assms show ?thesis by (simp add: v9_call_def)
next
  case (Inr s0)
  show ?thesis
  proof (cases "pass_loop dev bs ipt ((bs * ipt) mod 2 ^ 64) (length input) s0")
    case None
    with assms Inr show ?thesis
      by (simp add: v9_call_def split: option.splits)
  next
    case (Some y)
    obtain e1 s1 where y: "y = (e1, s1)" by (cases y)
    show ?thesis
    proof (cases e1)
      case (Some e)
      with assms Inr \<open>pass_loop dev bs ipt ((bs * ipt) mod 2 ^ 64) (length input) s0 = Some y\<close> y
      show ?thesis by (simp add: v9_call_def split: option.splits)
    next
      case None
      with assms Inr \<open>pass_loop dev bs ipt ((bs * ipt) mod 2 ^ 64) (length input) s0 = Some y\<close> y
      show ?thesis
        by (simp add: v9_call_def split: option.splits sum.splits)
    qed
  qed
qed

subsection \<open>The planner, the call operator and the constructor\<close>

lemma new_size_ceiling:
  assumes "1 \<le> factor"
  shows "new_size factor n = nat \<lceil>real n / real factor\<rceil>"
proof -
  define q r where "q = n div factor" and "r = n mod factor"
  have n: "n = q * factor + r" and r: "r < factor"
    using assms by (simp_all add: q_def r_def)
  have f: "0 < real factor" using assms by simp
  have split: "real n / real factor = real q + real r / real factor"
    using f by (simp add: n add_divide_distrib)
  show ?thesis
  proof (cases "r = 0")
    case True
    then have "real n / real factor = real q" using split by simp
    moreover have "new_size factor n = q"
      using True by (simp add: new_size_def q_def r_def)
    ultimately show ?thesis by simp
  next
    case False
    have lo: "0 < real r / real factor" using False f by simp
    have hi: "real r / real factor < 1" using r f by simp
    have "\<lceil>real n / real factor\<rceil> = int q + 1"
    proof (rule ceiling_unique)
      show "of_int (int q + 1) - 1 < real n / real factor" using lo split by simp
      show "real n / real factor \<le> of_int (int q + 1)" using hi split by simp
    qed
    moreover have "new_size factor n = q + 1"
      using False by (simp add: new_size_def q_def r_def)
    ultimately show ?thesis by simp
  qed
qed

lemma new_size_covers:
  assumes "1 \<le> factor"
  shows "n \<le> factor * new_size factor n"
proof -
  define q r where "q = n div factor" and "r = n mod factor"
  have d: "n = factor * q + r" and r: "r < factor"
    using assms by (simp_all add: q_def r_def)
  show ?thesis
  proof (cases "r = 0")
    case True
    then have "new_size factor n = q" by (simp add: new_size_def q_def r_def)
    with d True show ?thesis by simp
  next
    case False
    then have "new_size factor n = q + 1"
      by (simp add: new_size_def q_def r_def)
    then have "factor * new_size factor n = factor * q + factor" by simp
    with d r show ?thesis by linarith
  qed
qed


text \<open>
  Claim C3. For every factor of at least 1 and every size \<open>n\<close>, \<open>new_size factor n\<close> is the
  ceiling of \<open>n / factor\<close>; the groups of \<open>factor\<close> elements it counts cover all \<open>n\<close>
  elements, so no remainder is dropped.
\<close>

theorem new_size_is_ceiling:
  assumes "1 \<le> factor"
  shows "new_size factor n = nat \<lceil>real n / real factor\<rceil> \<and> n \<le> factor * new_size factor n"
  using assms by (intro conjI new_size_ceiling new_size_covers)

text \<open>
  Claim C10. For every factor of at least 2, \<open>new_size\<close> is strictly below every size above 1,
  and the pass loop of the call operator returns, for every size, configuration, device and
  engine.
\<close>

theorem new_size_shrinks_and_loop_ends:
  assumes "2 \<le> factor"
  shows "(1 < n \<longrightarrow> new_size factor n < n)
    \<and> (\<exists>r. pass_loop dev block_size items_per_thread factor n s = Some r)"
  using assms by (intro conjI impI new_size_less pass_loop_terminates)

text \<open>
  Claim C4. In a call that returns a scalar, the launches of the call are exactly those of
  \<open>pass_chain\<close>: one launch while the size exceeds 1, each on the buffers of the previous one
  exchanged and on the planner's next size. The scalar is the first element of the back
  argument of the last launch (no exchange follows the last pass), or of the back buffer as
  it was when the call began if nothing was launched.
\<close>

theorem call_operator_passes:
  assumes "v9_call dev s input block_size items_per_thread = Some (Inr result, s')"
  shows "let ls = drop (length (launches s)) (launches s') in
      launches s' = launches s @ ls
    \<and> pass_chain ((block_size * items_per_thread) mod 2 ^ 64) (front s) (back s) (length input) ls
    \<and> result = hd (mem s' (if ls = [] then back s else fst (snd (last ls))))"
proof -
  from v9_call_Inr[OF assms] obtain s0 s1 where
    ci: "copy_in dev s input = Inr s0"
    and pl: "pass_loop dev block_size items_per_thread ((block_size * items_per_thread) mod 2 ^ 64)
               (length input) s0 = Some (None, s1)"
    and co: "copy_out dev s1 = Inr result"
    and s': "s' = s1\<lparr>front := origi_front s1, back := origi_back s1\<rparr>" by blast
  have s0: "front s0 = front s" "back s0 = back s" "launches s0 = launches s"
    by (simp_all add: copy_in_Inr[OF ci])
  from pass_loop_launches[OF pl] obtain ls where
    l: "launches s1 = launches s0 @ ls"
    and c: "pass_chain ((block_size * items_per_thread) mod 2 ^ 64) (front s0) (back s0)
              (length input) ls"
    and b: "back s1 = (if ls = [] then back s0 else fst (snd (last ls)))" by blast
  have r: "result = hd (mem s1 (back s1))"
    using copy_out_Inr[OF co] by simp
  have d: "drop (length (launches s)) (launches s') = ls"
    by (simp add: s' l s0)
  show ?thesis
    unfolding Let_def d using l c b r by (simp add: s' s0)
qed

text \<open>
  Claim C5, amended. \<open>origi_front\<close> and \<open>origi_back\<close> never change. A call that returns a
  scalar leaves \<open>front\<close> and \<open>back\<close> at the original buffers; a call that fails leaves them
  as they stood at the failure, either as at entry or exchanged.
\<close>

theorem pointers_after_call:
  assumes "v9_call dev s input block_size items_per_thread = Some (outcome, s')"
  shows "origi_front s' = origi_front s \<and> origi_back s' = origi_back s
    \<and> (case outcome of
          Inr result \<Rightarrow> front s' = origi_front s \<and> back s' = origi_back s
        | Inl e \<Rightarrow> (front s' = front s \<and> back s' = back s)
                 \<or> (front s' = back s \<and> back s' = front s))"
proof (cases outcome)
  case (Inr result)
  from v9_call_Inr[OF assms[unfolded Inr]] obtain s0 s1 where
    ci: "copy_in dev s input = Inr s0"
    and pl: "pass_loop dev block_size items_per_thread ((block_size * items_per_thread) mod 2 ^ 64)
               (length input) s0 = Some (None, s1)"
    and s': "s' = s1\<lparr>front := origi_front s1, back := origi_back s1\<rparr>" by blast
  from pass_loop_fields[OF pl] copy_in_Inr[OF ci] show ?thesis
    by (simp add: Inr s')
next
  case (Inl e)
  from v9_call_Inl[OF assms[unfolded Inl]] consider "s' = s"
    | s0 where "copy_in dev s input = Inr s0" "s' = s0"
    | s0 e1 where "copy_in dev s input = Inr s0"
        "pass_loop dev block_size items_per_thread ((block_size * items_per_thread) mod 2 ^ 64)
           (length input) s0 = Some (e1, s')"
    by blast
  then show ?thesis
  proof cases
    case 1
    then show ?thesis by (simp add: Inl)
  next
    case 2
    then show ?thesis using copy_in_Inr[OF 2(1)] by (simp add: Inl)
  next
    case 3
    from pass_loop_fields[OF 3(2)] copy_in_Inr[OF 3(1)] show ?thesis
      by (simp add: Inl)
  qed
qed

lemma static_switch_absent:
  "v \<notin> set menu \<Longrightarrow> static_switch menu v f = Inl (Unsupported_value v)"
  by (simp add: static_switch_def)

lemma static_switch_present: "v \<in> set menu \<Longrightarrow> static_switch menu v f = f v"
  by (simp add: static_switch_def)

lemma HIP_CHECKs_Some: "HIP_CHECKs dev cs = Some e \<Longrightarrow> \<exists>c x. e = Hip_failure c x"
  by (induction cs) (auto simp: HIP_CHECK_def check_def split: option.splits if_splits)

lemma copy_in_Inl:
  "copy_in dev s input = Inl e \<Longrightarrow> (\<exists>c x. e = Hip_failure c x) \<or> e = Out_of_bounds"
  by (auto simp: copy_in_def HIP_CHECK_def check_def split: option.splits if_splits)

lemma copy_out_Inl:
  "copy_out dev s = Inl e \<Longrightarrow> (\<exists>c x. e = Hip_failure c x) \<or> e = Out_of_bounds"
  by (auto simp: copy_out_def HIP_CHECK_def check_def split: option.splits if_splits list.splits)

text \<open>A call on at most one element returns, and fails only through a device call or an
  access out of bounds.\<close>

lemma v9_call_small:
  assumes n: "length input \<le> 1"
  shows "\<exists>r s'. v9_call dev s input block_size items_per_thread = Some (r, s')
    \<and> (\<forall>e. r = Inl e \<longrightarrow> (\<exists>c x. e = Hip_failure c x) \<or> e = Out_of_bounds)"
proof (cases "copy_in dev s input")
  case (Inl e')
  then have "v9_call dev s input block_size items_per_thread = Some (Inl e', s)"
    by (simp add: v9_call_def)
  with copy_in_Inl[OF Inl] show ?thesis by auto
next
  case (Inr s0)
  let ?f = "(block_size * items_per_thread) mod 2 ^ 64"
  have loop: "pass_loop dev block_size items_per_thread ?f (length input) s0 = Some (None, s0)"
    using n by (subst pass_loop.simps) simp
  show ?thesis
  proof (cases "HIP_CHECKs dev [HipEventCreate_start, HipEventCreate_end, HipEventRecord_start]")
    case (Some e1)
    with Inr have "v9_call dev s input block_size items_per_thread = Some (Inl e1, s0)"
      by (simp add: v9_call_def)
    with HIP_CHECKs_Some[OF Some] show ?thesis by auto
  next
    case h1: None
    show ?thesis
    proof (cases "HIP_CHECKs dev [HipEventRecord_end, HipEventSynchronize]")
      case (Some e2)
      with Inr h1 loop have "v9_call dev s input block_size items_per_thread = Some (Inl e2, s0)"
        by (simp add: v9_call_def)
      with HIP_CHECKs_Some[OF Some] show ?thesis by auto
    next
      case h2: None
      show ?thesis
      proof (cases "copy_out dev s0")
        case (Inl e3)
        with Inr h1 h2 loop
        have "v9_call dev s input block_size items_per_thread = Some (Inl e3, s0)"
          by (simp add: v9_call_def)
        with copy_out_Inl[OF Inl] show ?thesis by auto
      next
        case r: (Inr result)
        show ?thesis
        proof (cases "HIP_CHECKs dev
            [HipEventElapsedTime, HipEventDestroy_end, HipEventDestroy_start]")
          case (Some e4)
          with Inr h1 h2 loop r
          have "v9_call dev s input block_size items_per_thread = Some (Inl e4, s0)"
            by (simp add: v9_call_def)
          with HIP_CHECKs_Some[OF Some] show ?thesis by auto
        next
          case None
          with Inr h1 h2 loop r
          have "v9_call dev s input block_size items_per_thread
              = Some (Inr result, s0\<lparr>front := origi_front s0, back := origi_back s0\<rparr>)"
            by (simp add: v9_call_def)
          then show ?thesis by simp
        qed
      qed
    qed
  qed
qed

text \<open>
  Claim C7, amended. A call on at most one element never reaches the dispatcher: it
  returns, and its outcome is neither an unsupported value nor the termination of the
  process, whatever the configuration.
  When the input has more than one element and the copy to the front buffer and the
  creation of the timing events succeed, a block size missing from its menu makes the call
  fail with that value; a warp size or a number of items per thread missing from its menu,
  the block size being supported, fails inside a \<open>noexcept\<close> callback, and the process is
  terminated without a report to the caller. In both cases the engine is as the copy left
  it: nothing was launched, the pointers have not moved and the back buffer is untouched.
\<close>

theorem unsupported_configuration:
  "(length input \<le> 1 \<longrightarrow>
      (\<exists>r s'. v9_call dev s input block_size items_per_thread = Some (r, s')
         \<and> (\<forall>v. r \<noteq> Inl (Unsupported_value v)) \<and> r \<noteq> Inl Terminated))
   \<and> (1 < length input \<longrightarrow> copy_in dev s input = Inr s0 \<longrightarrow>
      HIP_CHECKs dev [HipEventCreate_start, HipEventCreate_end, HipEventRecord_start] = None \<longrightarrow>
        (block_size \<notin> set [32, 64, 128, 256, 512, 1024] \<longrightarrow>
           v9_call dev s input block_size items_per_thread
             = Some (Inl (Unsupported_value block_size), s0))
      \<and> (block_size \<in> set [32, 64, 128, 256, 512, 1024] \<longrightarrow>
           warp_size s \<notin> set [32, 64] \<or> items_per_thread \<notin> set [1, 2, 3, 4, 8, 16] \<longrightarrow>
           v9_call dev s input block_size items_per_thread = Some (Inl Terminated, s0))
      \<and> launches s0 = launches s \<and> front s0 = front s \<and> back s0 = back s
      \<and> (front s \<noteq> back s \<longrightarrow> mem s0 (back s) = mem s (back s)))"
proof (intro conjI impI)
  assume n: "length input \<le> 1"
  from v9_call_small[OF n, of dev s block_size items_per_thread]
  show "\<exists>r s'. v9_call dev s input block_size items_per_thread = Some (r, s')
      \<and> (\<forall>v. r \<noteq> Inl (Unsupported_value v)) \<and> r \<noteq> Inl Terminated"
    by auto
next
  assume n: "1 < length input" and ci: "copy_in dev s input = Inr s0"
    and ev: "HIP_CHECKs dev [HipEventCreate_start, HipEventCreate_end, HipEventRecord_start] = None"
    and b: "block_size \<notin> set [32, 64, 128, 256, 512, 1024]"
  let ?factor = "(block_size * items_per_thread) mod 2 ^ 64"
  have "kernel_dispatcher block_size items_per_thread ?factor s0 (length input)
      = Inl (Unsupported_value block_size)"
    unfolding kernel_dispatcher_def using b by (rule static_switch_absent)
  then have "pass_loop dev block_size items_per_thread ?factor (length input) s0
      = Some (Some (Unsupported_value block_size), s0)"
    using n by (subst pass_loop.simps) simp
  then show "v9_call dev s input block_size items_per_thread
      = Some (Inl (Unsupported_value block_size), s0)"
    using ci ev by (simp add: v9_call_def)
next
  assume n: "1 < length input" and ci: "copy_in dev s input = Inr s0"
    and ev: "HIP_CHECKs dev [HipEventCreate_start, HipEventCreate_end, HipEventRecord_start] = None"
    and b: "block_size \<in> set [32, 64, 128, 256, 512, 1024]"
    and m: "warp_size s \<notin> set [32, 64] \<or> items_per_thread \<notin> set [1, 2, 3, 4, 8, 16]"
  let ?factor = "(block_size * items_per_thread) mod 2 ^ 64"
  have w: "warp_size s0 = warp_size s" by (simp add: copy_in_Inr[OF ci])
  have "kernel_dispatcher block_size items_per_thread ?factor s0 (length input) = Inl Terminated"
  proof (cases "warp_size s \<in> set [32, 64]")
    case False
    with b show ?thesis
      unfolding kernel_dispatcher_def w
      by (simp add: static_switch_present static_switch_absent)
  next
    case True
    with m have "items_per_thread \<notin> set [1, 2, 3, 4, 8, 16]" by blast
    with b True show ?thesis
      unfolding kernel_dispatcher_def w
      by (simp add: static_switch_present static_switch_absent)
  qed
  then have "pass_loop dev block_size items_per_thread ?factor (length input) s0
      = Some (Some Terminated, s0)"
    using n by (subst pass_loop.simps) simp
  then show "v9_call dev s input block_size items_per_thread = Some (Inl Terminated, s0)"
    using ci ev by (simp add: v9_call_def)
next
  assume ci: "copy_in dev s input = Inr s0"
  show "launches s0 = launches s" by (simp add: copy_in_Inr[OF ci])
  show "front s0 = front s" by (simp add: copy_in_Inr[OF ci])
  show "back s0 = back s" by (simp add: copy_in_Inr[OF ci])
  show "mem s0 (back s) = mem s (back s)" if "front s \<noteq> back s"
    using that by (simp add: copy_in_Inr[OF ci])
qed



lemma new_size_le: "new_size factor n \<le> n"
proof -
  consider "factor = 0" | "factor = 1" | "n \<le> 1" "2 \<le> factor" | "1 < n" "2 \<le> factor"
    by linarith
  then show ?thesis
  proof cases
    case 1
    then show ?thesis by (simp add: new_size_def)
  next
    case 2
    then show ?thesis by (simp add: new_size_def)
  next
    case 3
    then have "n = 0 \<or> n = 1" by linarith
    with 3(2) show ?thesis by (auto simp: new_size_def)
  next
    case 4
    then have "new_size factor n < n" by (intro new_size_less)
    then show ?thesis by simp
  qed
qed



subsection \<open>The warp reduction\<close>

declare shuffle_deltas.simps [simp del] active_warps.simps [simp del]

lemma neutral_ac_cms: "neutral_ac op z \<Longrightarrow> comm_monoid_set op z"
  unfolding neutral_ac_def
  by unfold_locales auto

lemma neutral_ac_left:
  assumes "neutral_ac op z"
  shows "op z a = a"
proof -
  from assms have "op z a = op a z" and "op a z = a"
    unfolding neutral_ac_def by blast+
  then show ?thesis by simp
qed

lemma neutral_ac_right: "neutral_ac op z \<Longrightarrow> op a z = a"
  unfolding neutral_ac_def by blast

lemma foldl_big:
  assumes "neutral_ac op z"
  shows "foldl op z xs = big op z (\<lambda>i. xs ! i) {..<length xs}"
proof (induction xs rule: rev_induct)
  case Nil
  show ?case by (simp add: comm_monoid_set.empty[OF neutral_ac_cms[OF assms]])
next
  case (snoc x xs)
  note cms = neutral_ac_cms[OF assms]
  have "big op z (\<lambda>i. (xs @ [x]) ! i) {..<length xs} = big op z (\<lambda>i. xs ! i) {..<length xs}"
    by (rule comm_monoid_set.cong[OF cms]) (simp_all add: nth_append)
  then show ?case
    using snoc by (simp add: comm_monoid_set.lessThan_Suc[OF cms])
qed

lemma foldl_hd_tl:
  assumes "neutral_ac op z" and "xs \<noteq> []"
  shows "foldl op (hd xs) (tl xs) = foldl op z xs"
  using assms by (cases xs) (simp_all add: neutral_ac_left)

lemma mod_double_split:
  fixes i :: nat
  assumes "l < d"
  shows "(i mod d = l) \<longleftrightarrow> (i mod (2 * d) = l \<or> i mod (2 * d) = l + d)"
proof -
  define r where "r = i mod (2 * d)"
  have d: "0 < d" using assms by simp
  have r: "r < 2 * d" using d by (simp add: r_def)
  have "i mod d = r mod d"
    unfolding r_def by (simp add: mod_mod_cancel)
  moreover have "(r mod d = l) \<longleftrightarrow> (r = l \<or> r = l + d)"
  proof (cases "r < d")
    case True
    with assms show ?thesis by auto
  next
    case False
    then have "d \<le> r" and "r - d < d" using r by auto
    then have "r mod d = r - d"
      by (simp add: le_mod_geq)
    with False assms show ?thesis by auto
  qed
  ultimately show ?thesis by (simp add: r_def)
qed

lemma warp_step_length [simp]: "length (warp_step op W A res d) = length res"
  by (simp add: warp_step_def)

lemma warp_step_nth:
  "t < length res \<Longrightarrow> warp_step op W A res d ! t
     = (if t div W < A then op (res ! t) (shfl_down W res t d) else res ! t)"
  by (simp add: warp_step_def)

lemma lanes_combined_step:
  assumes ac: "neutral_ac op z"
    and d: "0 < d" "2 * d \<le> W"
    and A: "A * W \<le> length res0"
    and inv: "lanes_combined op z W A res0 res (2 * d)"
  shows "lanes_combined op z W A res0 (warp_step op W A res d) d"
  unfolding lanes_combined_def
proof (intro conjI allI impI)
  note cms = neutral_ac_cms[OF ac]
  from inv have len: "length res = length res0"
    and val: "\<And>w l. w < A \<Longrightarrow> l < 2 * d \<Longrightarrow>
        res ! (w * W + l) = big op z (\<lambda>i. res0 ! (w * W + i)) {i. i < W \<and> i mod (2 * d) = l}"
    unfolding lanes_combined_def by auto
  show "length (warp_step op W A res d) = length res0" by (simp add: len)
  fix w l assume w: "w < A" and l: "l < d"
  let ?g = "\<lambda>i. res0 ! (w * W + i)"
  let ?t = "w * W + l"
  have lW: "l + d < W" using l d by simp
  have "(w + 1) * W \<le> A * W" using w by (intro mult_le_mono1) simp
  with A have wW: "w * W + W \<le> length res0" by simp
  have t: "?t < length res" "?t + d < length res" using lW wW len by simp_all
  have tdiv: "?t div W = w" and tmod: "?t mod W = l" using lW by simp_all
  have sh: "shfl_down W res ?t d = res ! (w * W + (l + d))"
    using lW t by (simp add: shfl_down_def tmod add.assoc)
  have "warp_step op W A res d ! ?t = op (res ! ?t) (res ! (w * W + (l + d)))"
    using t(1) w by (simp add: warp_step_nth tdiv sh)
  also have "\<dots> = op (big op z ?g {i. i < W \<and> i mod (2 * d) = l})
                     (big op z ?g {i. i < W \<and> i mod (2 * d) = l + d})"
    using w l by (simp add: val)
  also have "\<dots> = big op z ?g ({i. i < W \<and> i mod (2 * d) = l} \<union> {i. i < W \<and> i mod (2 * d) = l + d})"
    using d by (intro comm_monoid_set.union_disjoint[OF cms, symmetric]) auto
  also have "{i. i < W \<and> i mod (2 * d) = l} \<union> {i. i < W \<and> i mod (2 * d) = l + d}
      = {i. i < W \<and> i mod d = l}"
    using mod_double_split[OF l] by auto
  finally show "warp_step op W A res d ! ?t = big op z ?g {i. i < W \<and> i mod d = l}" .
qed

lemma shuffle_deltas_pow2: "shuffle_deltas (2 * 2 ^ j) = 2 * 2 ^ j # shuffle_deltas (2 ^ j)"
  by (subst shuffle_deltas.simps) simp

lemma shuffle_deltas_1: "shuffle_deltas (Suc 0) = [Suc 0]"
  by (simp add: shuffle_deltas.simps[of "Suc 0"] shuffle_deltas.simps[of 0])

lemma lanes_combined_deltas:
  assumes ac: "neutral_ac op z"
    and A: "A * W \<le> length res0"
  shows "2 ^ j \<le> W \<Longrightarrow> lanes_combined op z W A res0 res (2 ^ j) \<Longrightarrow>
    lanes_combined op z W A res0
      (foldl (warp_step op W A) res (shuffle_deltas (2 ^ j div 2))) 1"
proof (induction j arbitrary: res)
  case 0
  then show ?case by (simp add: shuffle_deltas.simps[of 0])
next
  case (Suc j)
  have d: "(0::nat) < 2 ^ j" "2 * 2 ^ j \<le> W" using Suc.prems(1) by simp_all
  have step: "lanes_combined op z W A res0 (warp_step op W A res (2 ^ j)) (2 ^ j)"
    using Suc.prems(2) by (intro lanes_combined_step[OF ac d A]) simp
  have le: "2 ^ j \<le> W" using d by simp
  have "shuffle_deltas (2 ^ Suc j div 2) = 2 ^ j # shuffle_deltas (2 ^ j div 2)"
  proof (cases j)
    case 0
    then show ?thesis by (simp add: shuffle_deltas_1 shuffle_deltas.simps[of 0])
  next
    case (Suc j')
    then show ?thesis by (simp add: shuffle_deltas_pow2)
  qed
  then show ?case
    using Suc.IH[OF le step] by simp
qed

lemma warp_reduction_lane0:
  assumes ac: "neutral_ac op z"
    and W: "W = 2 ^ k"
    and A: "A * W \<le> length res"
  shows "length (warp_reduction op W A res) = length res"
    and "w < A \<Longrightarrow> warp_reduction op W A res ! (w * W)
        = big op z (\<lambda>i. res ! (w * W + i)) {..<W}"
proof -
  note cms = neutral_ac_cms[OF ac]
  have init: "lanes_combined op z W A res res (2 ^ k)"
    unfolding lanes_combined_def
  proof (intro conjI allI impI)
    fix w l assume "w < A" "l < (2::nat) ^ k"
    then have "{i. i < W \<and> i mod 2 ^ k = l} = {l}" using W by auto
    then show "res ! (w * W + l) = big op z (\<lambda>i. res ! (w * W + i)) {i. i < W \<and> i mod 2 ^ k = l}"
      by (simp add: comm_monoid_set.insert[OF cms] comm_monoid_set.empty[OF cms]
          neutral_ac_right[OF ac])
  qed simp
  have "lanes_combined op z (2 ^ k) A res
      (foldl (warp_step op (2 ^ k) A) res (shuffle_deltas (2 ^ k div 2))) 1"
    by (rule lanes_combined_deltas[OF ac A[unfolded W] order_refl init[unfolded W]])
  then have fin: "lanes_combined op z W A res (warp_reduction op W A res) 1"
    by (simp add: warp_reduction_def W)
  show "length (warp_reduction op W A res) = length res"
    using fin by (simp add: lanes_combined_def)
  show "warp_reduction op W A res ! (w * W) = big op z (\<lambda>i. res ! (w * W + i)) {..<W}" if "w < A"
  proof -
    have "warp_reduction op W A res ! (w * W + 0)
        = big op z (\<lambda>i. res ! (w * W + i)) {i. i < W \<and> i mod 1 = 0}"
      by (rule fin[unfolded lanes_combined_def, THEN conjunct2, rule_format, OF that]) simp
    then show ?thesis by (simp add: lessThan_def)
  qed
qed

lemma write_shared_length [simp]: "length (write_shared W A res shared) = length shared"
  by (simp add: write_shared_def)

lemma write_shared_nth:
  "w < length shared \<Longrightarrow> write_shared W A res shared ! w
     = (if w < A \<and> w * W < length res then res ! (w * W) else shared ! w)"
  by (simp add: write_shared_def)

lemma big_segment:
  assumes "neutral_ac op z"
  shows "big op z (\<lambda>i. g (m + i)) {..<n} = big op z g {m..<m + n}"
proof -
  note cms = neutral_ac_cms[OF assms]
  have "big op z g {m..<m + n} = big op z (g \<circ> (+) m) {0..<m + n - m}"
    by (rule comm_monoid_set.atLeastLessThan_shift_0[OF cms])
  also have "\<dots> = big op z (\<lambda>i. g (m + i)) {..<n}"
    by (simp add: atLeast0LessThan comp_def)
  finally show ?thesis by simp
qed

lemma warp_round_spec:
  assumes ac: "neutral_ac op z"
    and W: "W = 2 ^ k"
    and A: "A * W \<le> length res" "A \<le> c"
    and c: "length shared = c"
  shows "length (fst (warp_round op z W c (res, shared) A)) = length res"
    and "length (snd (warp_round op z W c (res, shared) A)) = c"
    and "w < A \<Longrightarrow> snd (warp_round op z W c (res, shared) A) ! w
          = big op z (\<lambda>i. res ! i) {w * W..<w * W + W}"
    and "t < length res \<Longrightarrow> fst (warp_round op z W c (res, shared) A) ! t
          = (if t < c then snd (warp_round op z W c (res, shared) A) ! t else z)"
proof -
  let ?res1 = "warp_reduction op W A res"
  let ?sh1 = "write_shared W A ?res1 shared"
  have r: "warp_round op z W c (res, shared) A
      = (map (read_shared_safe c z ?sh1) [0..<length ?res1], ?sh1)"
    by (simp add: warp_round_def Let_def)
  have len: "length ?res1 = length res"
    by (rule warp_reduction_lane0(1)[OF ac W A(1)])
  show "length (fst (warp_round op z W c (res, shared) A)) = length res"
    by (simp add: r len)
  show "length (snd (warp_round op z W c (res, shared) A)) = c"
    by (simp add: r c)
  show "snd (warp_round op z W c (res, shared) A) ! w
          = big op z (\<lambda>i. res ! i) {w * W..<w * W + W}" if w: "w < A"
  proof -
    have W0: "0 < W" by (simp add: W)
    have "(w + 1) * W \<le> A * W" using w by (intro mult_le_mono1) simp
    with A(1) W0 have "w * W < length res" by simp
    with w A(2) c have "?sh1 ! w = ?res1 ! (w * W)"
      by (simp add: write_shared_nth len)
    also have "\<dots> = big op z (\<lambda>i. res ! (w * W + i)) {..<W}"
      by (rule warp_reduction_lane0(2)[OF ac W A(1) w])
    also have "\<dots> = big op z (\<lambda>i. res ! i) {w * W..<w * W + W}"
      by (rule big_segment[OF ac])
    finally show ?thesis by (simp add: r)
  qed
  show "fst (warp_round op z W c (res, shared) A) ! t
          = (if t < c then snd (warp_round op z W c (res, shared) A) ! t else z)"
    if "t < length res"
    using that by (simp add: r len read_shared_safe_def)
qed

lemma divide_ceil_small: "1 \<le> c \<Longrightarrow> c \<le> W \<Longrightarrow> divide_ceil W c = 1"
proof -
  assume c: "1 \<le> c" "c \<le> W"
  then have "W \<le> c + W - 1" "c + W - 1 < 2 * W" by simp_all
  then have "(c + W - 1) div W = 1"
    by (intro div_nat_eqI) simp_all
  then show ?thesis by (simp add: divide_ceil_def)
qed

lemma active_warps_small:
  assumes "2 \<le> W" and "1 \<le> c" and "c \<le> W"
  shows "active_warps W c = (if c = 1 then [1] else [c, 1])"
proof -
  have z: "active_warps W 0 = []" by (simp add: active_warps.simps[of W 0])
  have one: "active_warps W (Suc 0) = [Suc 0]"
    using assms(1) by (simp add: active_warps.simps[of W "Suc 0"] z)
  show ?thesis
  proof (cases "c = 1")
    case True
    then show ?thesis by (simp add: one)
  next
    case False
    then show ?thesis
      using assms by (simp add: active_warps.simps[of W c] divide_ceil_small one)
  qed
qed

lemma block_rounds:
  assumes ac: "neutral_ac op z"
    and W: "W = 2 ^ k" "1 \<le> k"
    and c: "1 \<le> c" "c \<le> W"
    and len: "length res = c * W"
  shows "length (fst (foldl (warp_round op z W c) (res, replicate c u) (active_warps W c)))
      = c * W"
    and "fst (foldl (warp_round op z W c) (res, replicate c u) (active_warps W c)) ! 0
      = big op z (\<lambda>t. res ! t) {..<c * W}"
proof -
  note cms = neutral_ac_cms[OF ac]
  have W2: "2 \<le> W" using W by (cases k) simp_all
  have W0: "0 < W" using W2 by simp
  have pos: "0 < length res" using len c W0 by simp
  let ?r1 = "warp_round op z W c (res, replicate c u) c"
  have A1: "c * W \<le> length res" "c \<le> c" "length (replicate c u) = c"
    by (simp_all add: len)
  note r1 = warp_round_spec[OF ac W(1) A1]
  have S: "snd ?r1 ! w = big op z (\<lambda>i. res ! i) {w * W..<w * W + W}" if "w < c" for w
    using r1(3)[OF that] .
  have total: "big op z (\<lambda>w. snd ?r1 ! w) {..<c} = big op z (\<lambda>t. res ! t) {..<c * W}"
  proof -
    have "big op z (\<lambda>w. snd ?r1 ! w) {..<c}
        = big op z (\<lambda>w. big op z (\<lambda>i. res ! i) {w * W..<w * W + W}) {..<c}"
      by (rule comm_monoid_set.cong[OF cms]) (simp_all add: S)
    also have "\<dots> = big op z (\<lambda>t. res ! t) {..<c * W}"
      by (rule comm_monoid_set.nat_group[OF cms])
    finally show ?thesis .
  qed
  let ?F = "foldl (warp_round op z W c) (res, replicate c u) (active_warps W c)"
  have both: "length (fst ?F) = c * W \<and> fst ?F ! 0 = big op z (\<lambda>t. res ! t) {..<c * W}"
  proof (cases "c = 1")
    case True
    then have aw: "active_warps W c = [c]"
      using active_warps_small[OF W2 c] by simp
    have l: "length (fst ?F) = c * W"
      by (simp add: aw r1(1) len)
    have "fst ?r1 ! 0 = snd ?r1 ! 0"
      using r1(4)[OF pos] c by simp
    also have "\<dots> = big op z (\<lambda>w. snd ?r1 ! w) {..<Suc 0}"
      by (simp add: comm_monoid_set.lessThan_Suc[OF cms] comm_monoid_set.empty[OF cms]
          neutral_ac_left[OF ac] del: lessThan_Suc)
    also have "\<dots> = big op z (\<lambda>t. res ! t) {..<c * W}"
      using total True by simp
    finally have "fst ?F ! 0 = big op z (\<lambda>t. res ! t) {..<c * W}"
      by (simp add: aw)
    with l show ?thesis by (rule conjI)
  next
    case False
    then have aw: "active_warps W c = [c, 1]"
      using active_warps_small[OF W2 c] by simp
    obtain res1 sh1 where p: "?r1 = (res1, sh1)" by (cases ?r1)
    have l1: "length res1 = length res" "length sh1 = c"
      using r1(1,2) by (simp_all add: p)
    have cW: "W \<le> length res" using len c by simp
    have A2: "1 * W \<le> length res1" "1 \<le> c" using cW c by (simp_all add: l1)
    note r2 = warp_round_spec[OF ac W(1) A2 l1(2)]
    let ?r2 = "warp_round op z W c (res1, sh1) 1"
    have f: "?F = ?r2"
      by (simp add: aw p)
    have l: "length (fst ?F) = c * W"
      unfolding f using r2(1) l1 len by simp
    have res1: "res1 ! t = (if t < c then sh1 ! t else z)" if "t < length res" for t
      using r1(4)[OF that] by (simp add: p)
    have "fst ?r2 ! 0 = snd ?r2 ! 0"
      using r2(4)[of 0] pos c by (simp add: l1)
    also have "\<dots> = big op z (\<lambda>i. res1 ! i) {0 * W..<0 * W + W}"
      by (rule r2(3)) simp
    also have "\<dots> = big op z (\<lambda>i. res1 ! i) {..<W}"
      by (simp add: atLeast0LessThan)
    also have "\<dots> = big op z (\<lambda>w. sh1 ! w) {..<c}"
    proof (rule comm_monoid_set.mono_neutral_cong_right[OF cms])
      show "finite {..<W}" by simp
      show "{..<c} \<subseteq> {..<W}" using c by simp
      show "\<forall>i\<in>{..<W} - {..<c}. res1 ! i = z"
        using cW by (auto simp: res1)
      show "res1 ! x = sh1 ! x" if "x \<in> {..<c}" for x
        using that c cW by (simp add: res1)
    qed
    also have "\<dots> = big op z (\<lambda>t. res ! t) {..<c * W}"
      using total by (simp add: p)
    finally have "fst ?F ! 0 = big op z (\<lambda>t. res ! t) {..<c * W}"
      unfolding f .
    with l show ?thesis by (rule conjI)
  qed
  from both show "length (fst ?F) = c * W" by (rule conjunct1)
  from both show "fst ?F ! 0 = big op z (\<lambda>t. res ! t) {..<c * W}" by (rule conjunct2)
qed

subsection \<open>The bounds-safe read\<close>

lemma unat_word32_of_nat: "g < 2 ^ 32 \<Longrightarrow> unat (word_of_nat g :: 32 word) = g"
  by (simp add: unat_of_nat)

lemma sint_word32_of_nat:
  assumes "g < 2 ^ 31"
  shows "sint (word_of_nat g :: 32 word) = int g"
proof -
  have "sint (word_of_nat g :: 32 word) = signed_take_bit 31 (int g)"
    by (simp add: signed_of_nat)
  also have "\<dots> = int g"
    using assms by (intro signed_take_bit_int_eq_self) simp_all
  finally show ?thesis .
qed

lemma word32_less_of_nat:
  assumes "a < 2 ^ 32"
  shows "(word_of_nat a :: 32 word) < w \<longleftrightarrow> a < unat w"
  using assms by (simp add: word_less_nat_alt unat_of_nat)

text \<open>The items a thread reads, when its block ends at or below position \<open>2 ^ 31\<close>.\<close>

lemma read_global_safe_items:
  assumes tid: "tid < BlockSize" and ipt: "1 \<le> ItemsPerThread"
    and fit: "(bid + 1) * (BlockSize * ItemsPerThread) \<le> 2 ^ 31"
  shows "read_global_safe ItemsPerThread front_size (gid BlockSize ItemsPerThread bid tid)
    = map (\<lambda>I. if bid * (BlockSize * ItemsPerThread) + tid * ItemsPerThread + I < unat front_size
                then Deref (int (bid * (BlockSize * ItemsPerThread) + tid * ItemsPerThread + I))
                else Neutral)
        [0..<ItemsPerThread]"
proof -
  define g where "g = bid * (BlockSize * ItemsPerThread) + tid * ItemsPerThread"
  have "tid * ItemsPerThread + ItemsPerThread = (tid + 1) * ItemsPerThread" by simp
  also have "\<dots> \<le> BlockSize * ItemsPerThread"
    using tid by (intro mult_le_mono1) simp
  finally have "g + ItemsPerThread \<le> (bid + 1) * (BlockSize * ItemsPerThread)"
    by (simp add: g_def)
  with fit have g: "g + ItemsPerThread \<le> 2 ^ 31" by linarith
  have gw: "gid BlockSize ItemsPerThread bid tid = word_of_nat g"
    by (simp add: gid_def g_def)
  have sg: "sint (word_of_nat g :: 32 word) = int g"
    using g ipt by (intro sint_word32_of_nat) linarith
  have lt: "(word_of_nat g + word_of_nat J < front_size) \<longleftrightarrow> g + J < unat front_size"
    if "J \<le> ItemsPerThread" for J
  proof -
    have "(2::nat) ^ 31 < 2 ^ 32" by simp
    with g that have "g + J < 2 ^ 32" by linarith
    then have "(word_of_nat (g + J) < front_size) \<longleftrightarrow> g + J < unat front_size"
      by (rule word32_less_of_nat)
    then show ?thesis by simp
  qed
  have "read_global_safe ItemsPerThread front_size (word_of_nat g)
      = map (\<lambda>I. if g + I < unat front_size then Deref (int (g + I)) else Neutral)
          [0..<ItemsPerThread]"
  proof (cases "g + ItemsPerThread < unat front_size")
    case True
    then show ?thesis
      unfolding read_global_safe_def sg by (simp add: lt)
  next
    case False
    then show ?thesis
      unfolding read_global_safe_def sg by (simp add: lt cong: map_cong)
  qed
  then show ?thesis by (simp add: gw g_def)
qed

lemma fetch_Deref: "p < length buf \<Longrightarrow> fetch buf z (Deref (int p)) = Inr (buf ! p)"
  by (simp add: fetch_def)

lemma collect_Inr: "collect (map Inr xs) = Inr xs"
  by (induction xs) simp_all

lemma collect_map_Inr: "(\<And>x. x \<in> set xs \<Longrightarrow> f x = Inr (g x)) \<Longrightarrow> collect (map f xs) = Inr (map g xs)"
  by (induction xs) simp_all

text \<open>
  Claim C6, amended. For a thread whose block ends at or below position \<open>2 ^ 31\<close>, the item
  \<open>I\<close> of its read is the front buffer at position
  \<open>p = bid * (BlockSize * ItemsPerThread) + tid * ItemsPerThread + I\<close> when \<open>p\<close> is below the
  length of the pass and the neutral element otherwise, and every position the thread
  dereferences is below that length.
\<close>

theorem read_global_safe_in_range:
  assumes tid: "tid < BlockSize" and I: "I < ItemsPerThread"
    and fit: "(bid + 1) * (BlockSize * ItemsPerThread) \<le> 2 ^ 31"
    and cap: "unat front_size \<le> length front_buf"
  shows "let p = bid * (BlockSize * ItemsPerThread) + tid * ItemsPerThread + I;
             arr = read_global_safe ItemsPerThread front_size
                     (gid BlockSize ItemsPerThread bid tid)
         in length arr = ItemsPerThread
          \<and> arr ! I = (if p < unat front_size then Deref (int p) else Neutral)
          \<and> fetch front_buf zero (arr ! I)
              = Inr (if p < unat front_size then front_buf ! p else zero)
          \<and> (\<forall>q. Deref q \<in> set arr \<longrightarrow> 0 \<le> q \<and> q < uint front_size)"
proof -
  define g where "g = bid * (BlockSize * ItemsPerThread) + tid * ItemsPerThread"
  define arr where
    "arr = read_global_safe ItemsPerThread front_size (gid BlockSize ItemsPerThread bid tid)"
  have ipt: "1 \<le> ItemsPerThread" using I by simp
  have arr: "arr = map (\<lambda>I. if g + I < unat front_size then Deref (int (g + I)) else Neutral)
                     [0..<ItemsPerThread]"
    unfolding arr_def g_def by (rule read_global_safe_items[OF tid ipt fit])
  have len: "length arr = ItemsPerThread" by (simp add: arr)
  have nth: "arr ! I = (if g + I < unat front_size then Deref (int (g + I)) else Neutral)"
    using I by (simp add: arr)
  have fetched: "fetch front_buf zero (arr ! I)
      = Inr (if g + I < unat front_size then front_buf ! (g + I) else zero)"
  proof (cases "g + I < unat front_size")
    case True
    with cap have "g + I < length front_buf" by linarith
    then have "fetch front_buf zero (Deref (int (g + I))) = Inr (front_buf ! (g + I))"
      by (rule fetch_Deref)
    with True show ?thesis by (simp add: nth del: of_nat_add)
  next
    case False
    then show ?thesis by (simp add: nth fetch_def)
  qed
  have derefs: "0 \<le> q \<and> q < uint front_size" if "Deref q \<in> set arr" for q
  proof -
    from that obtain x where q: "q = int (g + x)" and x: "g + x < unat front_size"
      by (auto simp: arr split: if_splits)
    from x have "int (g + x) < int (unat front_size)"
      by (simp only: of_nat_less_iff)
    then show ?thesis by (simp add: q)
  qed
  show ?thesis
    unfolding Let_def arr_def[symmetric] g_def[symmetric]
    using len nth fetched derefs by blast
qed

subsection \<open>Correctness of a pass and of the call\<close>

lemma thread_res_value:
  assumes ac: "neutral_ac op z"
    and tid: "tid < BlockSize" and ipt: "1 \<le> ItemsPerThread"
    and fit: "(bid + 1) * (BlockSize * ItemsPerThread) \<le> 2 ^ 31"
    and cap: "unat front_size \<le> length buf"
  shows "thread_res op z buf front_size ItemsPerThread (gid BlockSize ItemsPerThread bid tid)
    = Inr (big op z (\<lambda>i. padded z (unat front_size) buf
                            (bid * (BlockSize * ItemsPerThread) + (tid * ItemsPerThread + i)))
             {..<ItemsPerThread})"
proof -
  let ?g = "bid * (BlockSize * ItemsPerThread) + tid * ItemsPerThread"
  let ?L = "map (\<lambda>I. padded z (unat front_size) buf (?g + I)) [0..<ItemsPerThread]"
  have "collect (map (fetch buf z)
          (read_global_safe ItemsPerThread front_size (gid BlockSize ItemsPerThread bid tid)))
      = Inr ?L"
    unfolding read_global_safe_items[OF tid ipt fit] map_map
  proof (rule collect_map_Inr)
    fix I
    show "(fetch buf z \<circ> (\<lambda>I. if ?g + I < unat front_size then Deref (int (?g + I)) else Neutral)) I
        = Inr (padded z (unat front_size) buf (?g + I))"
    proof (cases "?g + I < unat front_size")
      case True
      with cap have "?g + I < length buf" by linarith
      then have "fetch buf z (Deref (int (?g + I))) = Inr (buf ! (?g + I))"
        by (rule fetch_Deref)
      with True show ?thesis
        by (simp add: padded_def del: of_nat_add of_nat_mult)
    next
      case False
      then show ?thesis by (simp add: fetch_def padded_def)
    qed
  qed
  moreover have "?L \<noteq> []" using ipt by simp
  ultimately have "thread_res op z buf front_size ItemsPerThread
        (gid BlockSize ItemsPerThread bid tid) = Inr (foldl op (hd ?L) (tl ?L))"
    unfolding thread_res_def by (cases ?L) simp_all
  also have "foldl op (hd ?L) (tl ?L) = foldl op z ?L"
    using ac \<open>?L \<noteq> []\<close> by (rule foldl_hd_tl)
  also have "\<dots> = big op z (\<lambda>i. ?L ! i) {..<length ?L}"
    by (rule foldl_big[OF ac])
  also have "\<dots> = big op z (\<lambda>i. padded z (unat front_size) buf
                            (bid * (BlockSize * ItemsPerThread) + (tid * ItemsPerThread + i)))
             {..<ItemsPerThread}"
    by (rule comm_monoid_set.cong[OF neutral_ac_cms[OF ac]]) (simp_all add: add.assoc)
  finally show ?thesis .
qed

lemma block_res_value:
  assumes ac: "neutral_ac op z"
    and W: "W = 2 ^ k" "1 \<le> k"
    and B: "B = c * W" "1 \<le> c" "c \<le> W"
    and ipt: "1 \<le> ItemsPerThread"
    and fit: "(bid + 1) * (B * ItemsPerThread) \<le> 2 ^ 31"
    and cap: "unat front_size \<le> length buf"
  shows "\<exists>rest. block_res B W ItemsPerThread op z u buf front_size bid
    = Inr (big op z (padded z (unat front_size) buf)
             {bid * (B * ItemsPerThread)..<bid * (B * ItemsPerThread) + B * ItemsPerThread}
           # rest)"
proof -
  note cms = neutral_ac_cms[OF ac]
  let ?g0 = "bid * (B * ItemsPerThread)"
  let ?h = "\<lambda>j. padded z (unat front_size) buf (?g0 + j)"
  let ?T = "\<lambda>tid. big op z (\<lambda>i. ?h (tid * ItemsPerThread + i)) {..<ItemsPerThread}"
  have W0: "0 < W" by (simp add: W)
  have cB: "B div W = c" using B W0 by simp
  have col: "collect (map (\<lambda>tid. thread_res op z buf front_size ItemsPerThread
                            (gid B ItemsPerThread bid tid)) [0..<B]) = Inr (map ?T [0..<B])"
    by (rule collect_map_Inr) (simp add: thread_res_value[OF ac _ ipt fit cap])
  let ?res = "map ?T [0..<B]"
  let ?F = "foldl (warp_round op z W c) (?res, replicate c u) (active_warps W c)"
  have len: "length ?res = c * W" by (simp add: B)
  note br = block_rounds[OF ac W B(2,3) len, of u]
  have "fst ?F ! 0 = big op z (\<lambda>t. ?res ! t) {..<c * W}" by (rule br(2))
  also have "\<dots> = big op z ?T {..<B}"
    unfolding B(1)[symmetric] by (rule comm_monoid_set.cong[OF cms]) simp_all
  also have "\<dots> = big op z (\<lambda>t. big op z ?h {t * ItemsPerThread..<t * ItemsPerThread + ItemsPerThread})
                      {..<B}"
  proof (rule comm_monoid_set.cong[OF cms])
    show "?T t = big op z ?h {t * ItemsPerThread..<t * ItemsPerThread + ItemsPerThread}" for t
      by (rule big_segment[OF ac])
  qed simp
  also have "\<dots> = big op z ?h {..<B * ItemsPerThread}"
    by (rule comm_monoid_set.nat_group[OF cms])
  also have "\<dots> = big op z (padded z (unat front_size) buf) {?g0..<?g0 + B * ItemsPerThread}"
    by (rule big_segment[OF ac])
  finally have v: "fst ?F ! 0
      = big op z (padded z (unat front_size) buf) {?g0..<?g0 + B * ItemsPerThread}" .
  have "0 < c * W" using B W0 by simp
  with br(1) have "fst ?F \<noteq> []" by auto
  then obtain r rest where rr: "fst ?F = r # rest" by (cases "fst ?F") auto
  with v have "r = big op z (padded z (unat front_size) buf) {?g0..<?g0 + B * ItemsPerThread}"
    by simp
  with rr have "block_res B W ItemsPerThread op z u buf front_size bid
    = Inr (big op z (padded z (unat front_size) buf) {?g0..<?g0 + B * ItemsPerThread} # rest)"
    by (simp add: block_res_def Let_def cB col)
  then show ?thesis ..
qed

lemma kernel_blocks_value:
  assumes "\<And>bid. bid \<in> set bids \<Longrightarrow>
      \<exists>rest. block_res B W I op z u buf fs bid = Inr (T bid # rest)"
  shows "(\<And>bid. bid \<in> set bids \<Longrightarrow> bid < length back_buf) \<Longrightarrow>
    kernel_blocks B W I op z u buf fs bids back_buf
      = Inr (foldl (\<lambda>b bid. b[bid := T bid]) back_buf bids)"
  using assms
proof (induction bids arbitrary: back_buf)
  case Nil
  show ?case by simp
next
  case (Cons bid bids)
  from Cons.prems(2)[of bid] obtain rest where
    r: "block_res B W I op z u buf fs bid = Inr (T bid # rest)" by auto
  have "kernel_blocks B W I op z u buf fs bids (back_buf[bid := T bid])
      = Inr (foldl (\<lambda>b bid. b[bid := T bid]) (back_buf[bid := T bid]) bids)"
    by (rule Cons.IH) (use Cons.prems in auto)
  then show ?case
    using Cons.prems(1)[of bid] by (simp add: r)
qed

lemma foldl_update_upt_length:
  "length (foldl (\<lambda>b bid. b[bid := T bid]) back_buf [0..<g]) = length back_buf"
  by (induction g) simp_all

lemma foldl_update_upt_nth:
  "j < length back_buf \<Longrightarrow> foldl (\<lambda>b bid. b[bid := T bid]) back_buf [0..<g] ! j
     = (if j < g then T j else back_buf ! j)"
proof (induction g)
  case 0
  show ?case by simp
next
  case (Suc g)
  show ?case
  proof (cases "j = g")
    case True
    with Suc.prems show ?thesis by (simp add: foldl_update_upt_length)
  next
    case False
    with Suc show ?thesis by (simp add: less_Suc_eq)
  qed
qed

text \<open>A kernel launch on a pass of \<open>n\<close> elements: block \<open>j\<close> of the grid leaves the
  combination of its chunk of the front buffer at index \<open>j\<close> of the back buffer.\<close>

lemma kernel_value:
  assumes ac: "neutral_ac op z"
    and W: "W = 2 ^ k" "1 \<le> k"
    and B: "B = c * W" "1 \<le> c" "c \<le> W"
    and ipt: "1 \<le> ItemsPerThread"
    and fit: "grid * (B * ItemsPerThread) \<le> 2 ^ 31"
    and n: "n \<le> length buf" "n < 2 ^ 32"
    and g: "grid \<le> length back_buf"
  shows "\<exists>b. kernel B W ItemsPerThread grid op z u buf back_buf (word_of_nat n) = Inr b
    \<and> length b = length back_buf
    \<and> (\<forall>j < grid. b ! j = big op z (padded z n buf)
          {j * (B * ItemsPerThread)..<j * (B * ItemsPerThread) + B * ItemsPerThread})"
proof -
  let ?fs = "word_of_nat n :: 32 word"
  let ?T = "\<lambda>j. big op z (padded z n buf)
          {j * (B * ItemsPerThread)..<j * (B * ItemsPerThread) + B * ItemsPerThread}"
  have un: "unat ?fs = n" using n(2) by (rule unat_word32_of_nat)
  have blocks: "\<exists>rest. block_res B W ItemsPerThread op z u buf ?fs bid = Inr (?T bid # rest)"
    if "bid \<in> set [0..<grid]" for bid
  proof -
    from that have "(bid + 1) * (B * ItemsPerThread) \<le> grid * (B * ItemsPerThread)"
      by (intro mult_le_mono1) simp
    with fit have f: "(bid + 1) * (B * ItemsPerThread) \<le> 2 ^ 31" by linarith
    have cap: "unat ?fs \<le> length buf" using n(1) un by simp
    from block_res_value[OF ac W B ipt f cap, of u] show ?thesis by (simp add: un)
  qed
  have "kernel B W ItemsPerThread grid op z u buf back_buf ?fs
      = Inr (foldl (\<lambda>b bid. b[bid := ?T bid]) back_buf [0..<grid])"
    unfolding kernel_def using g by (intro kernel_blocks_value blocks) auto
  moreover have "\<forall>j < grid. foldl (\<lambda>b bid. b[bid := ?T bid]) back_buf [0..<grid] ! j = ?T j"
    using g by (simp add: foldl_update_upt_nth)
  ultimately show ?thesis
    by (intro exI[of _ "foldl (\<lambda>b bid. b[bid := ?T bid]) back_buf [0..<grid]"])
      (simp add: foldl_update_upt_length)
qed

lemma new_size_covers':
  assumes "1 \<le> factor"
  shows "n \<le> new_size factor n * factor"
proof -
  define q r where "q = n div factor" and "r = n mod factor"
  have d: "n = q * factor + r" and r: "r < factor"
    using assms by (simp_all add: q_def r_def)
  show ?thesis
  proof (cases "r = 0")
    case True
    then have "new_size factor n = q" by (simp add: new_size_def q_def r_def)
    with d True show ?thesis by simp
  next
    case False
    then have "new_size factor n = q + 1"
      by (simp add: new_size_def q_def r_def)
    then have "new_size factor n * factor = q * factor + factor" by simp
    with d r show ?thesis by linarith
  qed
qed

lemma new_size_mult_bound:
  assumes "1 \<le> factor"
  shows "new_size factor n * factor < n + factor"
proof -
  define q r where "q = n div factor" and "r = n mod factor"
  have d: "n = q * factor + r" and r: "r < factor"
    using assms by (simp_all add: q_def r_def)
  show ?thesis
  proof (cases "r = 0")
    case True
    then have "new_size factor n = q" by (simp add: new_size_def q_def r_def)
    with d True assms show ?thesis by simp
  next
    case False
    then have "new_size factor n = q + 1"
      by (simp add: new_size_def q_def r_def)
    then have "new_size factor n * factor = q * factor + factor" by simp
    with d False show ?thesis by linarith
  qed
qed

lemma menu_shape:
  fixes B W :: nat
  assumes "B \<in> set [32, 64, 128, 256, 512, 1024]" and "W \<in> set [32, 64]" and "W \<le> B"
  shows "\<exists>k c. W = 2 ^ k \<and> 1 \<le> k \<and> B = c * W \<and> 1 \<le> c \<and> c \<le> W"
proof -
  from assms(2) consider "W = 32" | "W = 64" by auto
  then show ?thesis
  proof cases
    case 1
    have "(32::nat) = 2 ^ 5" by simp
    moreover have "B = (B div 32) * 32 \<and> 1 \<le> B div 32 \<and> B div 32 \<le> 32"
      using assms(1) by auto
    ultimately show ?thesis
      unfolding 1 by (intro exI[of _ 5] exI[of _ "B div 32"]) simp
  next
    case 2
    have "(64::nat) = 2 ^ 6" by simp
    moreover have "B = (B div 64) * 64 \<and> 1 \<le> B div 64 \<and> B div 64 \<le> 64"
      using assms(1,3) unfolding 2 by auto
    ultimately show ?thesis
      unfolding 2 by (intro exI[of _ 6] exI[of _ "B div 64"]) simp
  qed
qed

text \<open>One pass on a supported configuration whose blocks are at least a warp.\<close>

lemma kernel_dispatcher_value:
  assumes ac: "neutral_ac (kernel_op s) (zero_elem s)"
    and B: "B \<in> set [32, 64, 128, 256, 512, 1024]"
    and I: "I \<in> set [1, 2, 3, 4, 8, 16]"
    and W: "warp_size s \<in> set [32, 64]" "warp_size s \<le> B"
    and n: "n \<le> length (mem s (front s))"
    and m: "new_size (B * I) n \<le> length (mem s (back s))"
    and fit: "n + B * I \<le> 2 ^ 31"
  shows "\<exists>b. kernel_dispatcher B I (B * I) s n
        = Inr (s\<lparr>mem := (mem s)(back s := b),
                  launches := launches s @ [(front s, back s, n)]\<rparr>)
    \<and> length b = length (mem s (back s))
    \<and> (\<forall>j < new_size (B * I) n. b ! j
          = big (kernel_op s) (zero_elem s) (padded (zero_elem s) n (mem s (front s)))
              {j * (B * I)..<j * (B * I) + B * I})"
proof -
  from menu_shape[OF B W] obtain k c where
    s: "warp_size s = 2 ^ k" "1 \<le> k" "B = c * warp_size s" "1 \<le> c" "c \<le> warp_size s"
    by blast
  have I1: "1 \<le> I" using I by auto
  have "1 \<le> B" using B by auto
  then have "1 * 1 \<le> B * I" using I1 by (rule mult_le_mono)
  then have B1: "1 \<le> B * I" by simp
  let ?g = "new_size (B * I) n"
  have "?g * (B * I) < n + B * I" by (rule new_size_mult_bound[OF B1])
  with fit have gfit: "?g * (B * I) \<le> 2 ^ 31" by linarith
  have "(2::nat) ^ 31 < 2 ^ 32" by simp
  with fit have n32: "n < 2 ^ 32" by linarith
  have "?g \<le> n" by (rule new_size_le)
  with n32 have g32: "?g mod 2 ^ 32 = ?g" by simp
  from kernel_value[OF ac s I1 gfit n n32 m, of "uninit s"] obtain b where
    b: "kernel B (warp_size s) I ?g (kernel_op s) (zero_elem s) (uninit s) (mem s (front s))
          (mem s (back s)) (word_of_nat n) = Inr b"
    and l: "length b = length (mem s (back s))"
    and v: "\<forall>j < ?g. b ! j
          = big (kernel_op s) (zero_elem s) (padded (zero_elem s) n (mem s (front s)))
              {j * (B * I)..<j * (B * I) + B * I}"
    by blast
  have "hipLaunchKernelGGL B (warp_size s) I ?g s n
      = Inr (s\<lparr>mem := (mem s)(back s := b),
                launches := launches s @ [(front s, back s, n)]\<rparr>)"
    unfolding hipLaunchKernelGGL_def g32 b by simp
  then have "kernel_dispatcher B I (B * I) s n
      = Inr (s\<lparr>mem := (mem s)(back s := b),
                launches := launches s @ [(front s, back s, n)]\<rparr>)"
    using B I W(1) by (simp only: kernel_dispatcher_def static_switch_present noexcept.simps)
  with l v show ?thesis by blast
qed

lemma pass_total:
  assumes ac: "neutral_ac op z"
    and f: "1 \<le> f"
    and v: "\<forall>j < new_size f n. b ! j = big op z (padded z n buf) {j * f..<j * f + f}"
  shows "big op z (\<lambda>j. b ! j) {..<new_size f n} = big op z (\<lambda>i. buf ! i) {..<n}"
proof -
  note cms = neutral_ac_cms[OF ac]
  let ?m = "new_size f n"
  have "big op z (\<lambda>j. b ! j) {..<?m}
      = big op z (\<lambda>j. big op z (padded z n buf) {j * f..<j * f + f}) {..<?m}"
    by (rule comm_monoid_set.cong[OF cms]) (simp_all add: v)
  also have "\<dots> = big op z (padded z n buf) {..<?m * f}"
    by (rule comm_monoid_set.nat_group[OF cms])
  also have "\<dots> = big op z (\<lambda>i. buf ! i) {..<n}"
  proof (rule comm_monoid_set.mono_neutral_cong_right[OF cms])
    show "finite {..<?m * f}" by simp
    show "{..<n} \<subseteq> {..<?m * f}" using new_size_covers'[OF f, of n] by simp
    show "\<forall>i\<in>{..<?m * f} - {..<n}. padded z n buf i = z" by (simp add: padded_def)
    show "padded z n buf x = buf ! x" if "x \<in> {..<n}" for x
      using that by (simp add: padded_def)
  qed
  finally show ?thesis .
qed

lemma pass_loop_value:
  assumes B: "B \<in> set [32, 64, 128, 256, 512, 1024]"
    and I: "I \<in> set [1, 2, 3, 4, 8, 16]"
    and ok: "\<forall>c. dev c = hipSuccess"
  shows "neutral_ac (kernel_op s) (zero_elem s) \<Longrightarrow>
    warp_size s \<in> set [32, 64] \<Longrightarrow> warp_size s \<le> B \<Longrightarrow>
    front s \<noteq> back s \<Longrightarrow> 1 < n \<Longrightarrow>
    n \<le> length (mem s (front s)) \<Longrightarrow>
    new_size (B * I) n \<le> length (mem s (back s)) \<Longrightarrow>
    n + B * I \<le> 2 ^ 31 \<Longrightarrow>
    \<exists>s1. pass_loop dev B I (B * I) n s = Some (None, s1)
      \<and> mem s1 (back s1) \<noteq> []
      \<and> hd (mem s1 (back s1))
          = big (kernel_op s) (zero_elem s) (\<lambda>i. mem s (front s) ! i) {..<n}"
proof (induction n arbitrary: s rule: less_induct)
  case (less n)
  note ac = less.prems(1) and W = less.prems(2,3) and ne = less.prems(4) and n1 = less.prems(5)
    and cap = less.prems(6,7) and fit = less.prems(8)
  let ?op = "kernel_op s" and ?z = "zero_elem s"
  let ?f = "B * I"
  let ?m = "new_size ?f n"
  have I1: "1 \<le> I" using I by auto
  have "32 \<le> B" using B by auto
  then have "32 * 1 \<le> B * I" using I1 by (rule mult_le_mono)
  then have f32: "32 \<le> ?f" by simp
  have f1: "1 \<le> ?f" and f2: "2 \<le> ?f" and f0: "?f \<noteq> 0"
    using f32 by linarith+
  from kernel_dispatcher_value[OF ac B I W cap fit] obtain b where
    d: "kernel_dispatcher B I ?f s n
        = Inr (s\<lparr>mem := (mem s)(back s := b),
                  launches := launches s @ [(front s, back s, n)]\<rparr>)"
    and l: "length b = length (mem s (back s))"
    and v: "\<forall>j < ?m. b ! j = big ?op ?z (padded ?z n (mem s (front s))) {j * ?f..<j * ?f + ?f}"
    by blast
  let ?s' = "s\<lparr>mem := (mem s)(back s := b), launches := launches s @ [(front s, back s, n)]\<rparr>"
  have total: "big ?op ?z (\<lambda>j. b ! j) {..<?m} = big ?op ?z (\<lambda>i. mem s (front s) ! i) {..<n}"
    by (rule pass_total[OF ac f1 v])
  have chk: "check (dev (HipKernelLaunchGGL n)) (HipKernelLaunchGGL n) = None"
    using ok by (simp add: check_def)
  have dec: "?m < n" using f2 n1 by (rule new_size_less)
  have "n \<le> ?m * ?f" by (rule new_size_covers'[OF f1])
  with n1 have m1: "1 \<le> ?m" by (cases "?m") simp_all
  have unfold: "pass_loop dev B I ?f n s
      = pass_loop dev B I ?f ?m (if 1 < ?m then ?s'\<lparr>front := back ?s', back := front ?s'\<rparr> else ?s')"
    using n1 d chk f0 by (subst pass_loop.simps) simp
  show ?case
  proof (cases "1 < ?m")
    case True
    let ?s2 = "?s'\<lparr>front := back ?s', back := front ?s'\<rparr>"
    have mf: "mem ?s2 (front ?s2) = b" by simp
    have mb: "mem ?s2 (back ?s2) = mem s (front s)" using ne by simp
    have "new_size ?f ?m \<le> ?m" by (rule new_size_le)
    with dec cap(1) have c2: "new_size ?f ?m \<le> length (mem ?s2 (back ?s2))"
      unfolding mb by linarith
    have c1: "?m \<le> length (mem ?s2 (front ?s2))"
      unfolding mf using cap(2) l by simp
    have fit2: "?m + ?f \<le> 2 ^ 31" using dec fit by linarith
    have ne2: "front ?s2 \<noteq> back ?s2" using ne by simp
    have ac2: "neutral_ac (kernel_op ?s2) (zero_elem ?s2)" using ac by simp
    have W2: "warp_size ?s2 \<in> set [32, 64]" "warp_size ?s2 \<le> B" using W by simp_all
    from less.IH[OF dec ac2 W2 ne2 True c1 c2 fit2] obtain s1 where
      r: "pass_loop dev B I ?f ?m ?s2 = Some (None, s1)"
      and nz: "mem s1 (back s1) \<noteq> []"
      and h: "hd (mem s1 (back s1))
          = big (kernel_op ?s2) (zero_elem ?s2) (\<lambda>i. mem ?s2 (front ?s2) ! i) {..<?m}"
      by blast
    have "hd (mem s1 (back s1)) = big ?op ?z (\<lambda>j. b ! j) {..<?m}"
      using h by simp
    with total have "hd (mem s1 (back s1)) = big ?op ?z (\<lambda>i. mem s (front s) ! i) {..<n}"
      by simp
    moreover have "pass_loop dev B I ?f n s = Some (None, s1)"
      using unfold True r by simp
    ultimately show ?thesis using nz by blast
  next
    case False
    with m1 have m: "?m = 1" by simp
    have stop: "pass_loop dev B I ?f ?m ?s' = Some (None, ?s')"
      unfolding m by (subst pass_loop.simps) simp
    have bl: "1 \<le> length b" using cap(2) l m by simp
    then have bne: "b \<noteq> []" by auto
    have "hd b = b ! 0" using bne by (simp add: hd_conv_nth)
    also have "\<dots> = big ?op ?z (\<lambda>j. b ! j) {..<Suc 0}"
      by (simp add: comm_monoid_set.lessThan_Suc[OF neutral_ac_cms[OF ac]]
          comm_monoid_set.empty[OF neutral_ac_cms[OF ac]] neutral_ac_left[OF ac]
          del: lessThan_Suc)
    also have "\<dots> = big ?op ?z (\<lambda>i. mem s (front s) ! i) {..<n}"
      using total m by simp
    finally have "hd (mem ?s' (back ?s')) = big ?op ?z (\<lambda>i. mem s (front s) ! i) {..<n}"
      by simp
    moreover have "mem ?s' (back ?s') \<noteq> []" using bne by simp
    moreover have "pass_loop dev B I ?f n s = Some (None, ?s')"
      using unfold False stop by simp
    ultimately show ?thesis by blast
  qed
qed

text \<open>
  The call operator is correct where claim C1 holds: on a device whose calls succeed, for an
  operator that is associative and commutative with the engine's zero as neutral element, a
  block size and a number of items per thread from the menus with the block size at least
  the warp size, and an input of at least two elements that fits the buffers and stays
  below the kernel's 32-bit range, the call returns the sequential fold of the input.
\<close>

theorem call_operator_reduces:
  assumes ac: "neutral_ac (kernel_op s) (zero_elem s)"
    and B: "block_size \<in> set [32, 64, 128, 256, 512, 1024]"
    and I: "items_per_thread \<in> set [1, 2, 3, 4, 8, 16]"
    and W: "warp_size s \<in> set [32, 64]" "warp_size s \<le> block_size"
    and n: "2 \<le> length input"
    and cap: "length input \<le> length (mem s (front s))"
      "new_size (block_size * items_per_thread) (length input) \<le> length (mem s (back s))"
    and ne: "front s \<noteq> back s"
    and fit: "length input + block_size * items_per_thread \<le> 2 ^ 31"
    and ok: "\<forall>c. dev c = hipSuccess"
  shows "\<exists>s'. v9_call dev s input block_size items_per_thread
      = Some (Inr (foldl (kernel_op s) (hd input) (tl input)), s')"
proof -
  let ?op = "kernel_op s" and ?z = "zero_elem s"
  let ?n = "length input"
  let ?f = "block_size * items_per_thread"
  note cms = neutral_ac_cms[OF ac]
  have flt: "?f < 2 ^ 64"
  proof -
    have "?f \<le> 2 ^ 31" using fit by linarith
    also have "(2::nat) ^ 31 < 2 ^ 64" by simp
    finally show ?thesis .
  qed
  then have fmod: "?f mod 2 ^ 64 = ?f" by simp
  let ?s0 = "s\<lparr>mem := (mem s)(front s := input @ drop ?n (mem s (front s)))\<rparr>"
  have checks: "HIP_CHECKs dev cs = None" for cs
    using ok by (induction cs) (simp_all add: HIP_CHECK_def check_def)
  have ci: "copy_in dev s input = Inr ?s0"
    using ok cap(1) by (simp add: copy_in_def HIP_CHECK_def check_def)
  have mf: "mem ?s0 (front ?s0) = input @ drop ?n (mem s (front s))" by simp
  have mb: "mem ?s0 (back ?s0) = mem s (back s)" using ne by simp
  have c1: "?n \<le> length (mem ?s0 (front ?s0))" unfolding mf using cap(1) by simp
  have c2: "new_size ?f ?n \<le> length (mem ?s0 (back ?s0))" unfolding mb by (rule cap(2))
  have n1: "1 < ?n" using n by simp
  have ac0: "neutral_ac (kernel_op ?s0) (zero_elem ?s0)" using ac by simp
  have W0: "warp_size ?s0 \<in> set [32, 64]" "warp_size ?s0 \<le> block_size" using W by simp_all
  have ne0: "front ?s0 \<noteq> back ?s0" using ne by simp
  from pass_loop_value[OF B I ok ac0 W0 ne0 n1 c1 c2 fit] obtain s1 where
    r: "pass_loop dev block_size items_per_thread ?f ?n ?s0 = Some (None, s1)"
    and nz: "mem s1 (back s1) \<noteq> []"
    and h: "hd (mem s1 (back s1))
        = big (kernel_op ?s0) (zero_elem ?s0) (\<lambda>i. mem ?s0 (front ?s0) ! i) {..<?n}"
    by blast
  have "hd (mem s1 (back s1)) = big ?op ?z (\<lambda>i. (input @ drop ?n (mem s (front s))) ! i) {..<?n}"
    using h by simp
  also have "\<dots> = big ?op ?z (\<lambda>i. input ! i) {..<?n}"
    by (rule comm_monoid_set.cong[OF cms]) (simp_all add: nth_append)
  also have "\<dots> = foldl ?op ?z input"
    by (rule foldl_big[OF ac, symmetric])
  also have "\<dots> = foldl ?op (hd input) (tl input)"
    using n by (intro foldl_hd_tl[OF ac, symmetric]) auto
  finally have res: "hd (mem s1 (back s1)) = foldl ?op (hd input) (tl input)" .
  have co: "copy_out dev s1 = Inr (hd (mem s1 (back s1)))"
    using ok nz by (cases "mem s1 (back s1)") (simp_all add: copy_out_def HIP_CHECK_def check_def)
  have "v9_call dev s input block_size items_per_thread
      = Some (Inr (foldl ?op (hd input) (tl input)),
              s1\<lparr>front := origi_front s1, back := origi_back s1\<rparr>)"
    unfolding v9_call_def Let_def fmod ci checks
    by (simp add: r co res)
  then show ?thesis ..
qed

subsection \<open>Concrete calls\<close>

lemmas host_defs = example_engine_def v9_ctor_def v9_call_def copy_in_def copy_out_def HIP_CHECK_def
  check_def all_succeed_def fails_at_def hipSuccess_def kernel_dispatcher_def static_switch_def
  hipLaunchKernelGGL_def new_size_def

lemma kernel_8_warp32:
  "kernel 32 32 (Suc 0) (Suc 0) (+) (0::int) 99 [1, 2, 3, 4, 5, 6, 7, 8] [99] 8 = Inr [36]"
  by code_simp

lemma kernel_2_warp64:
  "kernel 32 64 (Suc 0) (Suc 0) (+) (0::int) 99 [1, 2] [99] 2 = Inr [1]"
  by code_simp

lemma kernel_33_pass1:
  "kernel 32 32 (Suc 0) (Suc (Suc 0)) (+) (0::int) 99
     [1, 2, 3, 4, 5, 6, 7, 8, 9, 10, 11, 12, 13, 14, 15, 16, 17, 18, 19, 20, 21, 22,
      23, 24, 25, 26, 27, 28, 29, 30, 31, 32, 33] (replicate 2 99) 33 = Inr [528, 33]"
  by code_simp

lemma kernel_33_pass2:
  "kernel 32 32 (Suc 0) (Suc 0) (+) (0::int) 99 [528, 33]
     [1, 2, 3, 4, 5, 6, 7, 8, 9, 10, 11, 12, 13, 14, 15, 16, 17, 18, 19, 20, 21, 22,
      23, 24, 25, 26, 27, 28, 29, 30, 31, 32, 33] 2
   = Inr [561, 2, 3, 4, 5, 6, 7, 8, 9, 10, 11, 12, 13, 14, 15, 16, 17, 18, 19, 20, 21, 22,
      23, 24, 25, 26, 27, 28, 29, 30, 31, 32, 33]"
  by code_simp

lemma run_8:
  "map_option (\<lambda>r. (fst r, launches (snd r)))
     (v9_call all_succeed (example_engine 32 8) [1, 2, 3, 4, 5, 6, 7, 8] 32 1)
   = Some (Inr 36, [(Front_allocation, Back_allocation, 8)])"
  by (simp add: host_defs pass_loop.simps kernel_8_warp32)

lemma run_8_block4:
  "map_option (\<lambda>r. (fst r, launches (snd r)))
     (v9_call all_succeed (example_engine 32 8) [1, 2, 3, 4, 5, 6, 7, 8] 4 1)
   = Some (Inl (Unsupported_value 4), [])"
  by (simp add: host_defs pass_loop.simps)

lemma run_2_warp64:
  "map_option (\<lambda>r. (fst r, launches (snd r)))
     (v9_call all_succeed (example_engine 64 2) [1, 2] 32 1)
   = Some (Inr 1, [(Front_allocation, Back_allocation, 2)])"
  by (simp add: host_defs pass_loop.simps kernel_2_warp64)

lemma run_1:
  "map_option (\<lambda>r. (fst r, launches (snd r)))
     (v9_call all_succeed (example_engine 32 8) [5] 32 1)
   = Some (Inr 99, [])"
  by (simp add: host_defs pass_loop.simps)

lemma run_1_block7:
  "map_option (\<lambda>r. (fst r, launches (snd r)))
     (v9_call all_succeed (example_engine 32 8) [5] 7 1)
   = Some (Inr 99, [])"
  by (simp add: host_defs pass_loop.simps)

lemma run_33:
  "map_option (\<lambda>r. (fst r, launches (snd r)))
     (v9_call all_succeed (example_engine 32 33) one_to_33 32 1)
   = Some (Inr 561, [(Front_allocation, Back_allocation, 33),
                     (Back_allocation, Front_allocation, 2)])"
  by (simp add: host_defs one_to_33_def pass_loop.simps kernel_33_pass1 kernel_33_pass2)

lemma run_33_failing:
  "map_option (\<lambda>r. (fst r, front (snd r), back (snd r), origi_front (snd r), origi_back (snd r)))
     (v9_call (fails_at (HipKernelLaunchGGL 2)) (example_engine 32 33) one_to_33 32 1)
   = Some (Inl (Hip_failure (HipKernelLaunchGGL 2) 1),
           Back_allocation, Front_allocation, Front_allocation, Back_allocation)"
  by (simp add: host_defs one_to_33_def pass_loop.simps kernel_33_pass1 kernel_33_pass2)

text \<open>
  Claim C2 at a failing input. A call on the single element 5 launches nothing and returns
  the first element of the back buffer, which the call never wrote: 99 on a fresh engine,
  and 36 after a call on the numbers 1 to 8.
\<close>

theorem single_element_returns_stale_back:
  "map_option (\<lambda>r. (fst r, launches (snd r)))
     (v9_call all_succeed (example_engine 32 8) [5] 32 1) = Some (Inr 99, [])
   \<and> Option.bind (v9_call all_succeed (example_engine 32 8) [1, 2, 3, 4, 5, 6, 7, 8] 32 1)
       (\<lambda>r. map_option (\<lambda>r'. (fst r, fst r', length (launches (snd r')) - length (launches (snd r))))
              (v9_call all_succeed (snd r) [5] 32 1))
     = Some (Inr 36, Inr 36, 0)"
  by (simp add: host_defs pass_loop.simps kernel_8_warp32)

text \<open>The claim C3 at the factor 8 and the size 10.\<close>

theorem new_size_is_ceiling_witness:
  "(1::nat) \<le> 8 \<and> new_size 8 10 = nat \<lceil>real 10 / real 8\<rceil> \<and> (10::nat) \<le> 8 * new_size 8 10"
  using new_size_is_ceiling[of 8 10] by simp

text \<open>The claim C10 at the factor 32 and the size 33.\<close>

theorem new_size_shrinks_and_loop_ends_witness:
  "(2::nat) \<le> 32 \<and> 1 < (33::nat) \<and> new_size 32 33 < 33
   \<and> (\<exists>r. pass_loop all_succeed 32 1 32 33 (example_engine 32 33) = Some r)"
  using new_size_shrinks_and_loop_ends[of 32 33 all_succeed 32 1 "example_engine 32 33"] by simp

lemma call_33: "\<exists>s'. v9_call all_succeed (example_engine 32 33) one_to_33 32 1 = Some (Inr 561, s')"
  using run_33 by (cases "v9_call all_succeed (example_engine 32 33) one_to_33 32 1") auto

text \<open>The claim C4 at a call on 33 elements: two passes, 33 to 2 and 2 to 1.\<close>

theorem call_operator_passes_witness:
  "\<exists>s'. v9_call all_succeed (example_engine 32 33) one_to_33 32 1 = Some (Inr 561, s')
     \<and> (let ls = drop (length (launches (example_engine 32 33))) (launches s') in
          launches s' = launches (example_engine 32 33) @ ls
        \<and> pass_chain ((32 * 1) mod 2 ^ 64) (front (example_engine 32 33))
            (back (example_engine 32 33)) (length one_to_33) ls
        \<and> 561 = hd (mem s' (if ls = [] then back (example_engine 32 33)
                              else fst (snd (last ls)))))"
proof -
  from call_33 obtain s' where
    c: "v9_call all_succeed (example_engine 32 33) one_to_33 32 1 = Some (Inr 561, s')" ..
  from call_operator_passes[OF c] c show ?thesis by blast
qed

text \<open>The amended claim C5 at a successful call on 33 elements.\<close>

theorem pointers_after_call_witness:
  "\<exists>s'. v9_call all_succeed (example_engine 32 33) one_to_33 32 1 = Some (Inr 561, s')
     \<and> origi_front s' = origi_front (example_engine 32 33)
     \<and> origi_back s' = origi_back (example_engine 32 33)
     \<and> front s' = origi_front (example_engine 32 33)
     \<and> back s' = origi_back (example_engine 32 33)"
proof -
  from call_33 obtain s' where
    c: "v9_call all_succeed (example_engine 32 33) one_to_33 32 1 = Some (Inr 561, s')" ..
  from pointers_after_call[OF c] c show ?thesis by auto
qed

text \<open>
  Claim C5 as stated fails: when the device reports an error after the second launch of a
  call on 33 elements, the call fails with \<open>front\<close> at the back allocation, not at
  \<open>origi_front\<close>.
\<close>

theorem pointers_not_restored_after_failure:
  "map_option fst (v9_call (fails_at (HipKernelLaunchGGL 2)) (example_engine 32 33) one_to_33 32 1)
     = Some (Inl (Hip_failure (HipKernelLaunchGGL 2) 1))
   \<and> map_option (front \<circ> snd)
       (v9_call (fails_at (HipKernelLaunchGGL 2)) (example_engine 32 33) one_to_33 32 1)
     = Some Back_allocation
   \<and> map_option (origi_front \<circ> snd)
       (v9_call (fails_at (HipKernelLaunchGGL 2)) (example_engine 32 33) one_to_33 32 1)
     = Some Front_allocation"
  using run_33_failing
  by (cases "v9_call (fails_at (HipKernelLaunchGGL 2)) (example_engine 32 33) one_to_33 32 1") auto

text \<open>The amended claim C7 at the single element 5 with the block size 7, and at the
  numbers 1 to 8 with the block size 4 and with the block size 32 and 5 items per thread.\<close>

theorem unsupported_configuration_witness:
  "length [5 :: int] \<le> 1
   \<and> (\<exists>r s'. v9_call all_succeed (example_engine 32 8) [5] 7 1 = Some (r, s')
         \<and> r \<noteq> Inl (Unsupported_value 7) \<and> r \<noteq> Inl Terminated)
   \<and> 1 < length [1, 2, 3, 4, 5, 6, 7, 8 :: int]
   \<and> copy_in all_succeed (example_engine 32 8) [1, 2, 3, 4, 5, 6, 7, 8]
       = Inr (projr (copy_in all_succeed (example_engine 32 8) [1, 2, 3, 4, 5, 6, 7, 8]))
   \<and> HIP_CHECKs all_succeed [HipEventCreate_start, HipEventCreate_end, HipEventRecord_start] = None
   \<and> (4::nat) \<notin> set [32, 64, 128, 256, 512, 1024]
   \<and> v9_call all_succeed (example_engine 32 8) [1, 2, 3, 4, 5, 6, 7, 8] 4 1
       = Some (Inl (Unsupported_value 4),
               projr (copy_in all_succeed (example_engine 32 8) [1, 2, 3, 4, 5, 6, 7, 8]))
   \<and> (32::nat) \<in> set [32, 64, 128, 256, 512, 1024]
   \<and> (5::nat) \<notin> set [1, 2, 3, 4, 8, 16]
   \<and> v9_call all_succeed (example_engine 32 8) [1, 2, 3, 4, 5, 6, 7, 8] 32 5
       = Some (Inl Terminated,
               projr (copy_in all_succeed (example_engine 32 8) [1, 2, 3, 4, 5, 6, 7, 8]))
   \<and> launches (projr (copy_in all_succeed (example_engine 32 8) [1, 2, 3, 4, 5, 6, 7, 8]))
       = launches (example_engine 32 8)
   \<and> front (example_engine 32 8) \<noteq> back (example_engine 32 8)
   \<and> mem (projr (copy_in all_succeed (example_engine 32 8) [1, 2, 3, 4, 5, 6, 7, 8]))
         (back (example_engine 32 8))
       = mem (example_engine 32 8) (back (example_engine 32 8))"
proof -
  let ?E = "example_engine 32 8"
  let ?xs = "[1, 2, 3, 4, 5, 6, 7, 8 :: int]"
  let ?s0 = "projr (copy_in all_succeed ?E ?xs)"
  have a: "length [5 :: int] \<le> 1" by simp
  from unsupported_configuration[THEN conjunct1, THEN mp, OF a]
  have a1: "\<exists>r s'. v9_call all_succeed ?E [5] 7 1 = Some (r, s')
      \<and> r \<noteq> Inl (Unsupported_value 7) \<and> r \<noteq> Inl Terminated"
    by blast
  have h1: "1 < length ?xs" by simp
  have h2: "copy_in all_succeed ?E ?xs = Inr ?s0" by (simp add: host_defs)
  have h3: "HIP_CHECKs all_succeed [HipEventCreate_start, HipEventCreate_end, HipEventRecord_start]
      = None"
    by (simp add: host_defs)
  note large = unsupported_configuration[THEN conjunct2, THEN mp, OF h1, THEN mp, OF h2,
      THEN mp, OF h3]
  have h4: "(4::nat) \<notin> set [32, 64, 128, 256, 512, 1024]" by simp
  from large[THEN conjunct1, THEN mp, OF h4]
  have b: "v9_call all_succeed ?E ?xs 4 1 = Some (Inl (Unsupported_value 4), ?s0)" .
  have h5: "(32::nat) \<in> set [32, 64, 128, 256, 512, 1024]" by simp
  have h6: "(5::nat) \<notin> set [1, 2, 3, 4, 8, 16]" by simp
  then have h6': "warp_size ?E \<notin> set [32, 64] \<or> (5::nat) \<notin> set [1, 2, 3, 4, 8, 16]"
    by (rule disjI2)
  from large[THEN conjunct2, THEN conjunct1, THEN mp, OF h5, THEN mp, OF h6']
  have c: "v9_call all_succeed ?E ?xs 32 5 = Some (Inl Terminated, ?s0)" .
  from large[THEN conjunct2, THEN conjunct2, THEN conjunct1]
  have d: "launches ?s0 = launches ?E" .
  have h7: "front ?E \<noteq> back ?E" by (simp add: host_defs)
  from large[THEN conjunct2, THEN conjunct2, THEN conjunct2, THEN conjunct2, THEN conjunct2,
      THEN mp, OF h7]
  have e: "mem ?s0 (back ?E) = mem ?E (back ?E)" .
  from a a1 h1 h2 h3 h4 b h5 h6 c d h7 e show ?thesis by (intro conjI)
qed



text \<open>The amended claim C6 at thread 1 of block 0, four items per thread and a pass of
  length 10.\<close>

theorem read_global_safe_in_range_witness:
  "(1::nat) < 32 \<and> (2::nat) < 4 \<and> (0 + 1) * (32 * 4) \<le> (2::nat) ^ 31
   \<and> unat (10 :: 32 word) \<le> length [10, 11, 12, 13, 14, 15, 16, 17, 18, 19 :: int]
   \<and> (let p = 0 * (32 * 4) + 1 * 4 + 2;
           arr = read_global_safe 4 10 (gid 32 4 0 1)
       in length arr = 4
          \<and> arr ! 2 = (if p < unat (10 :: 32 word) then Deref (int p) else Neutral)
          \<and> fetch [10, 11, 12, 13, 14, 15, 16, 17, 18, 19 :: int] 0 (arr ! 2)
              = Inr (if p < unat (10 :: 32 word)
                     then [10, 11, 12, 13, 14, 15, 16, 17, 18, 19] ! p else 0)
          \<and> (\<forall>q. Deref q \<in> set arr \<longrightarrow> 0 \<le> q \<and> q < uint (10 :: 32 word)))"
proof -
  have h1: "(1::nat) < 32" and h2: "(2::nat) < 4"
    and h3: "(0 + 1) * (32 * 4) \<le> (2::nat) ^ 31"
    and h4: "unat (10 :: 32 word) \<le> length [10, 11, 12, 13, 14, 15, 16, 17, 18, 19 :: int]"
    by simp_all
  from read_global_safe_in_range[OF h1 h2 h3 h4, of 0] h1 h2 h3 h4 show ?thesis
    by (intro conjI) assumption+
qed

text \<open>
  Claim C6 as stated fails: in a pass of \<open>2 ^ 31 + 100\<close> elements with 1024 threads of 16
  items, thread 0 of block 131072 starts at position \<open>2 ^ 31\<close>, below the length; its offset
  is negative as an \<open>int32_t\<close>, and its first item is a read at index \<open>- 2 ^ 31\<close>.
\<close>

theorem read_global_safe_wraps:
  "read_global_safe 16 2147483748 (gid 1024 16 131072 0) ! 0 = Deref (- 2147483648)"
  by (simp add: read_global_safe_def gid_def)

text \<open>
  Claim C7 as stated fails: a call on a single element with the block size 7 launches
  nothing, reports no error and returns the first element of the back buffer.
\<close>

theorem unsupported_block_size_unreported:
  "map_option fst (v9_call all_succeed (example_engine 32 8) [5] 7 1) = Some (Inr 99)"
  using run_1_block7
  by (cases "v9_call all_succeed (example_engine 32 8) [5] 7 1") auto

text \<open>
  Claim C9 as stated fails: the block size 4 is not in the menu, and the call on the
  numbers 1 to 8 ends with the configuration error, not with 36.
\<close>

theorem block_size_4_rejected:
  "map_option fst (v9_call all_succeed (example_engine 32 8) [1, 2, 3, 4, 5, 6, 7, 8] 4 1)
     = Some (Inl (Unsupported_value 4))"
  using run_8_block4
  by (cases "v9_call all_succeed (example_engine 32 8) [1, 2, 3, 4, 5, 6, 7, 8] 4 1") auto

text \<open>
  Claim C9, amended. For the numbers 1 to 8 under addition the planner's sizes with the
  factor 4 are 8, 2, 1 and the sequential fold is 36; the call with the block size 4 fails
  with the configuration error and launches nothing; with the block size 32 and one item
  per thread on a device of warp size 32 the call returns 36 after exactly one pass, 8 to 1.
\<close>

theorem scenario_eight_elements:
  "new_size 4 8 = 2 \<and> new_size 4 2 = 1
   \<and> foldl (+) 1 [2, 3, 4, 5, 6, 7, 8 :: int] = 36
   \<and> map_option (\<lambda>r. (fst r, launches (snd r)))
       (v9_call all_succeed (example_engine 32 8) [1, 2, 3, 4, 5, 6, 7, 8] 4 1)
     = Some (Inl (Unsupported_value 4), [])
   \<and> map_option (\<lambda>r. (fst r, launches (snd r)))
       (v9_call all_succeed (example_engine 32 8) [1, 2, 3, 4, 5, 6, 7, 8] 32 1)
     = Some (Inr 36, [(Front_allocation, Back_allocation, 8)])
   \<and> new_size 32 8 = 1"
  using run_8 run_8_block4 by (simp add: new_size_def)

text \<open>
  Claim C1 at a failing input. With the block size 32 on a device of warp size 64 the
  kernel has no warp to reduce (\<open>WarpCount = 0\<close>), and a block writes the value of its
  thread 0 alone: the call on \<open>[1, 2]\<close> returns 1, the fold is 3.
\<close>

theorem block_below_warp_drops_elements:
  "map_option fst (v9_call all_succeed (example_engine 64 2) [1, 2] 32 1) = Some (Inr 1)
   \<and> foldl (+) 1 [2 :: int] = 3"
  using run_2_warp64
  by (cases "v9_call all_succeed (example_engine 64 2) [1, 2] 32 1") auto

end
